theory Spec2Isabelle
  imports Main "HOL-Library.Monad_Syntax"
begin

section \<open>Grid, label raster and run lists\<close>

text \<open>
  The part of \<^verbatim>\<open>IceGrid\<close> that the constructor of \<^verbatim>\<open>ConnectedComponents\<close> reads:
  the first owned column and row (\<open>xs\<close>, \<open>ys\<close>), the numbers of owned columns and rows
  (\<open>xm\<close>, \<open>ym\<close>) and the size of the global domain (\<open>Mx\<close>, \<open>My\<close>).
\<close>

record grid =
  xs :: int
  xm :: int
  ys :: int
  ym :: int
  Mx :: int
  My :: int

definition i_local_first :: "grid \<Rightarrow> int" where
  "i_local_first g = xs g"

definition i_local_last :: "grid \<Rightarrow> int" where
  "i_local_last g = i_local_first g + xm g - 1"

definition j_local_first :: "grid \<Rightarrow> int" where
  "j_local_first g = ys g"

definition j_local_last :: "grid \<Rightarrow> int" where
  "j_local_last g = j_local_first g + ym g - 1"

definition i_global_first :: "grid \<Rightarrow> int" where
  "i_global_first g = 0"

definition i_global_last :: "grid \<Rightarrow> int" where
  "i_global_last g = Mx g - 1"

definition j_global_first :: "grid \<Rightarrow> int" where
  "j_global_first g = 0"

definition j_global_last :: "grid \<Rightarrow> int" where
  "j_global_last g = My g - 1"

text \<open>The cells a process owns.\<close>

definition owned :: "grid \<Rightarrow> int \<times> int \<Rightarrow> bool" where
  "owned g c = (i_local_first g \<le> fst c \<and> fst c \<le> i_local_last g \<and>
                j_local_first g \<le> snd c \<and> snd c \<le> j_local_last g)"

text \<open>
  Modelled from the spec: the iterator \<^verbatim>\<open>Points\<close> is not part of the sources at hand; the
  scan is row-major over the owned tile, the column index running fastest and the rows
  going from south to north.
\<close>

definition points :: "grid \<Rightarrow> (int \<times> int) list" where
  "points g = concat (map (\<lambda>j. map (\<lambda>i. (i, j)) [i_local_first g..i_local_last g])
                          [j_local_first g..j_local_last g])"

text \<open>
  The label raster \<^verbatim>\<open>m_mask_run\<close> is addressed by global cell coordinates. Its class is
  outside the sources at hand, so it is a function on all coordinates; the cells of interest
  are the owned ones and the ring of ghosts around them.
\<close>

type_synonym raster = "int \<times> int \<Rightarrow> int"

text \<open>
  A \<^verbatim>\<open>RunVec\<close> is a vector indexed by run number. Reading or writing outside the allocated
  range has no defined behaviour in the source; the model returns \<open>None\<close> there.
\<close>

type_synonym RunVec = "int list"

definition vget :: "RunVec \<Rightarrow> int \<Rightarrow> int option" where
  "vget v k = (if 0 \<le> k \<and> k < int (length v) then Some (v ! nat k) else None)"

definition vset :: "RunVec \<Rightarrow> int \<Rightarrow> int \<Rightarrow> RunVec option" where
  "vset v k x = (if 0 \<le> k \<and> k < int (length v) then Some (v[nat k := x]) else None)"

definition resize :: "RunVec \<Rightarrow> nat \<Rightarrow> RunVec" where
  "resize v n = take n v @ replicate (n - length v) 0"

text \<open>\<^verbatim>\<open>VecList\<close>: the four vectors kept under the keys of the same names.\<close>

record VecList =
  parents :: RunVec
  lengths :: RunVec
  j_vec :: RunVec
  i_vec :: RunVec

text \<open>
  What \<^verbatim>\<open>compute_runs\<close> works on: its three reference parameters and the label raster of
  the object.
\<close>

record state =
  run_number :: int
  lists :: VecList
  max_items :: int
  mask_run :: raster

section \<open>The union-find forest\<close>

text \<open>
  \<^verbatim>\<open>trackParentRun\<close> follows parent entries until it meets an entry that is 0. The walk need
  not end (a cycle among the entries) and may leave the vector; in both cases there is no
  result.
\<close>

partial_function (option) trackParentRun :: "int \<Rightarrow> RunVec \<Rightarrow> int option" where
  "trackParentRun run ps =
     do { p \<leftarrow> vget ps run;
          if p \<noteq> 0 then trackParentRun p ps else Some run }"

declare trackParentRun.simps [code]

definition run_union :: "RunVec \<Rightarrow> int \<Rightarrow> int \<Rightarrow> RunVec option" where
  "run_union ps run1 run2 =
     do { p1 \<leftarrow> vget ps run1;
          if p1 = run2 then Some ps
          else do {
            p2 \<leftarrow> vget ps run2;
            if p2 = run1 then Some ps
            else do {
              r1 \<leftarrow> trackParentRun run1 ps;
              r2 \<leftarrow> trackParentRun run2 ps;
              if r1 > r2 then vset ps r1 r2
              else if r1 < r2 then vset ps r2 r1
              else Some ps } } }"

definition setRunSink :: "int \<Rightarrow> RunVec \<Rightarrow> RunVec option" where
  "setRunSink run ps =
     (if run = 0 \<or> run = 1 then Some ps
      else do {
        r \<leftarrow> trackParentRun run ps;
        if r \<noteq> 1 then vset ps r 1 else Some ps })"

definition init_VecList :: "nat \<Rightarrow> VecList option" where
  "init_VecList sz =
     do { let z = replicate sz 0;
          p \<leftarrow> vset z 0 0; l \<leftarrow> vset z 0 0; jv \<leftarrow> vset z 0 0; iv \<leftarrow> vset z 0 0;
          p \<leftarrow> vset p 1 0; l \<leftarrow> vset l 1 0; jv \<leftarrow> vset jv 1 0; iv \<leftarrow> vset iv 1 0;
          Some \<lparr>parents = p, lengths = l, j_vec = jv, i_vec = iv\<rparr> }"

definition resizeLists :: "VecList \<Rightarrow> int \<Rightarrow> VecList" where
  "resizeLists ls new_length =
     \<lparr>parents = resize (parents ls) (nat new_length),
      lengths = resize (lengths ls) (nat new_length),
      j_vec = resize (j_vec ls) (nat new_length),
      i_vec = resize (i_vec ls) (nat new_length)\<rparr>"

section \<open>The scan\<close>

text \<open>The two classes of the source file; the virtual methods are dispatched on them.\<close>

datatype engine = ConnectedComponents | SinkCC

definition SinkCond :: "state \<Rightarrow> int \<Rightarrow> int \<Rightarrow> bool" where
  "SinkCond st i j = (mask_run st (i, j) = 1)"

definition CC_startNewRun :: "int \<Rightarrow> int \<Rightarrow> int \<Rightarrow> state \<Rightarrow> state option" where
  "CC_startNewRun i j parent st =
     do { let rn = run_number st + 1;
          let ls = lists st;
          iv \<leftarrow> vset (i_vec ls) rn i;
          jv \<leftarrow> vset (j_vec ls) rn j;
          l \<leftarrow> vset (lengths ls) rn 1;
          p \<leftarrow> vset (parents ls) rn parent;
          Some (st\<lparr>run_number := rn,
                   lists := \<lparr>parents = p, lengths = l, j_vec = jv, i_vec = iv\<rparr>\<rparr>) }"

definition CC_continueRun :: "int \<Rightarrow> int \<Rightarrow> state \<Rightarrow> state option" where
  "CC_continueRun i j st =
     do { let ls = lists st;
          n \<leftarrow> vget (lengths ls) (run_number st);
          l \<leftarrow> vset (lengths ls) (run_number st) (n + 1);
          Some (st\<lparr>lists := ls\<lparr>lengths := l\<rparr>\<rparr>) }"

definition SinkCC_startNewRun :: "int \<Rightarrow> int \<Rightarrow> int \<Rightarrow> state \<Rightarrow> state option" where
  "SinkCC_startNewRun i j parent st =
     CC_startNewRun i j (if SinkCond st i j then 1 else parent) st"

definition SinkCC_continueRun :: "int \<Rightarrow> int \<Rightarrow> state \<Rightarrow> state option" where
  "SinkCC_continueRun i j st =
     do { st1 \<leftarrow> CC_continueRun i j st;
          if SinkCond st1 i j
          then do { p \<leftarrow> setRunSink (run_number st1) (parents (lists st1));
                    Some (st1\<lparr>lists := (lists st1)\<lparr>parents := p\<rparr>\<rparr>) }
          else Some st1 }"

fun startNewRun :: "engine \<Rightarrow> int \<Rightarrow> int \<Rightarrow> int \<Rightarrow> state \<Rightarrow> state option" where
  "startNewRun ConnectedComponents = CC_startNewRun"
| "startNewRun SinkCC = SinkCC_startNewRun"

fun continueRun :: "engine \<Rightarrow> int \<Rightarrow> int \<Rightarrow> state \<Rightarrow> state option" where
  "continueRun ConnectedComponents = CC_continueRun"
| "continueRun SinkCC = SinkCC_continueRun"

definition mergeRuns :: "int \<Rightarrow> int \<Rightarrow> state \<Rightarrow> state option" where
  "mergeRuns run run_south st =
     do { p \<leftarrow> run_union (parents (lists st)) run_south run;
          Some (st\<lparr>lists := (lists st)\<lparr>parents := p\<rparr>\<rparr>) }"

text \<open>
  \<^verbatim>\<open>checkForegroundPixel\<close>. The star stencil is read before anything is written:
  \<open>w\<close> is the raster value of the west neighbour \<open>(i - 1, j)\<close>, \<open>s\<close> that of the south
  neighbour \<open>(i, j - 1)\<close>.
\<close>

definition checkForegroundPixel :: "engine \<Rightarrow> grid \<Rightarrow> int \<Rightarrow> int \<Rightarrow> state \<Rightarrow> state option" where
  "checkForegroundPixel e g i j st =
     do { let isWest = (i \<le> i_local_first g);
          let isSouth = (j \<le> j_local_first g);
          let w = mask_run st (i - 1, j);
          let s = mask_run st (i, j - 1);
          st1 \<leftarrow> (if \<not> isWest \<and> w > 0 then continueRun e i j st
                  else startNewRun e i j (if \<not> isSouth \<and> s > 0 then s else 0) st);
          if \<not> isSouth \<and> s > 0 then mergeRuns (run_number st1) s st1 else Some st1 }"

text \<open>One round of the loop over the points in \<^verbatim>\<open>compute_runs\<close>.\<close>

definition scan_step :: "engine \<Rightarrow> grid \<Rightarrow> (int \<Rightarrow> int \<Rightarrow> bool) \<Rightarrow> int \<times> int \<Rightarrow> state \<Rightarrow> state option" where
  "scan_step e g ForegroundCond c st =
     (case c of (i, j) \<Rightarrow>
        if ForegroundCond i j then
          do { st1 \<leftarrow> checkForegroundPixel e g i j st;
               let st2 = st1\<lparr>mask_run := (mask_run st1)((i, j) := run_number st1)\<rparr>;
               if run_number st2 + 1 \<ge> max_items st2
               then (let m = max_items st2 + ym g
                     in Some (st2\<lparr>max_items := m, lists := resizeLists (lists st2) m\<rparr>))
               else Some st2 }
        else Some st)"

fun scan :: "engine \<Rightarrow> grid \<Rightarrow> (int \<Rightarrow> int \<Rightarrow> bool) \<Rightarrow> (int \<times> int) list \<Rightarrow> state \<Rightarrow> state option" where
  "scan e g ForegroundCond [] st = Some st"
| "scan e g ForegroundCond (c # cs) st =
     (case scan_step e g ForegroundCond c st of
        None \<Rightarrow> None
      | Some st1 \<Rightarrow> scan e g ForegroundCond cs st1)"

section \<open>Label resolution\<close>

definition label_run :: "RunVec \<Rightarrow> RunVec \<Rightarrow> RunVec \<Rightarrow> RunVec \<Rightarrow> int \<Rightarrow> raster \<Rightarrow> raster option" where
  "label_run ps ls jv iv k m =
     do { label \<leftarrow> trackParentRun k ps;
          len \<leftarrow> vget ls k;
          i0 \<leftarrow> (if 0 < len then vget iv k else Some 0);
          j0 \<leftarrow> (if 0 < len then vget jv k else Some 0);
          Some (fold (\<lambda>n m. m((i0 + int n, j0) := label)) [0..<nat len] m) }"

fun label_runs :: "VecList \<Rightarrow> int list \<Rightarrow> raster \<Rightarrow> raster option" where
  "label_runs L [] m = Some m"
| "label_runs L (k # ks) m =
     (case label_run (parents L) (lengths L) (j_vec L) (i_vec L) k m of
        None \<Rightarrow> None
      | Some m1 \<Rightarrow> label_runs L ks m1)"

definition labelMask :: "state \<Rightarrow> state option" where
  "labelMask st =
     do { m \<leftarrow> label_runs (lists st) [0..run_number st] (mask_run st);
          Some (st\<lparr>mask_run := m\<rparr>) }"

section \<open>Boundary reconciliation\<close>

text \<open>
  Modelled from the spec: \<^verbatim>\<open>update_ghosts\<close> belongs to the raster class, which is not
  part of the sources at hand. The exchange overwrites the cells the process does not own
  with what the neighbouring processes hold there; these values are the parameter \<open>env\<close>.
\<close>

definition updateGhosts :: "grid \<Rightarrow> raster \<Rightarrow> raster \<Rightarrow> raster" where
  "updateGhosts g env m = (\<lambda>c. if owned g c then m c else env c)"

definition treatInnerMargin ::
  "int \<Rightarrow> int \<Rightarrow> bool \<Rightarrow> bool \<Rightarrow> bool \<Rightarrow> bool \<Rightarrow> state \<times> bool \<Rightarrow> (state \<times> bool) option" where
  "treatInnerMargin i j isNorth isEast isSouth isWest sc =
     (case sc of (st, changed) \<Rightarrow>
        let run = mask_run st (i, j) in
        if run > 1 then
          (let WestSink = (isWest \<and> mask_run st (i - 1, j) = 1);
               EastSink = (isEast \<and> mask_run st (i + 1, j) = 1);
               SouthSink = (isSouth \<and> mask_run st (i, j - 1) = 1);
               NorthSink = (isNorth \<and> mask_run st (i, j + 1) = 1)
           in if WestSink \<or> EastSink \<or> SouthSink \<or> NorthSink
              then do { p \<leftarrow> vset (parents (lists st)) run 1;
                        Some (st\<lparr>lists := (lists st)\<lparr>parents := p\<rparr>\<rparr>, True) }
              else Some (st, changed))
        else Some (st, changed))"

text \<open>
  The statements of \<^verbatim>\<open>updateRunsAtBoundaries\<close> that follow its \<^verbatim>\<open>return false\<close>: the loop
  over the margin cells. The third and the fourth flag handed to \<^verbatim>\<open>treatInnerMargin\<close> are
  both \<open>isWest\<close>, as in the source.
\<close>

definition margin_step :: "grid \<Rightarrow> int \<times> int \<Rightarrow> state \<times> bool \<Rightarrow> (state \<times> bool) option" where
  "margin_step g c sc =
     (case c of (i, j) \<Rightarrow>
        let isWest = (i = i_local_first g \<and> \<not> i = i_global_first g);
            isEast = (i = i_local_last g \<and> \<not> i = i_global_last g);
            isSouth = (j = j_local_first g \<and> \<not> j = j_global_first g);
            isNorth = (j = j_local_last g \<and> \<not> j = j_global_last g);
            isMargin = (isWest \<or> isEast \<or> isSouth \<or> isNorth)
        in if isMargin then treatInnerMargin i j isNorth isEast isWest isWest sc
           else Some sc)"

fun margin_loop :: "grid \<Rightarrow> (int \<times> int) list \<Rightarrow> state \<times> bool \<Rightarrow> (state \<times> bool) option" where
  "margin_loop g [] sc = Some sc"
| "margin_loop g (c # cs) sc =
     (case margin_step g c sc of None \<Rightarrow> None | Some sc1 \<Rightarrow> margin_loop g cs sc1)"

text \<open>
  \<^verbatim>\<open>updateRunsAtBoundaries\<close>: the ghosts are exchanged, then the function returns
  \<^verbatim>\<open>false\<close>; the margin loop above is never entered.
\<close>

definition updateRunsAtBoundaries :: "grid \<Rightarrow> raster \<Rightarrow> state \<Rightarrow> (state \<times> bool) option" where
  "updateRunsAtBoundaries g env st =
     (let st1 = st\<lparr>mask_run := updateGhosts g env (mask_run st)\<rparr>
      in Some (st1, False))"

section \<open>The engine\<close>

partial_function (option) boundary_loop :: "grid \<Rightarrow> raster \<Rightarrow> state \<Rightarrow> state option" where
  "boundary_loop g env st =
     do { (st1, updateAtBoundaries) \<leftarrow> updateRunsAtBoundaries g env st;
          st2 \<leftarrow> labelMask st1;
          if updateAtBoundaries then boundary_loop g env st2 else Some st2 }"

declare boundary_loop.simps [code]

definition compute_runs :: "engine \<Rightarrow> grid \<Rightarrow> (int \<Rightarrow> int \<Rightarrow> bool) \<Rightarrow> raster \<Rightarrow> state \<Rightarrow> state option" where
  "compute_runs e g ForegroundCond env st =
     do { st1 \<leftarrow> scan e g ForegroundCond (points g) st;
          st2 \<leftarrow> labelMask st1;
          boundary_loop g env st2 }"

definition reserved :: "RunVec \<Rightarrow> bool" where
  "reserved ps \<longleftrightarrow> 2 \<le> length ps \<and> ps ! 0 = 0 \<and> ps ! 1 = 0 \<and> (\<forall>x\<in>set ps. 0 \<le> x)"

definition downward :: "RunVec \<Rightarrow> int \<Rightarrow> bool" where
  "downward ps n \<longleftrightarrow> 1 \<le> n \<and> n < int (length ps) \<and>
     (\<forall>k\<in>{0..<int (length ps)}.
        0 \<le> ps ! nat k \<and> (ps ! nat k \<noteq> 0 \<longrightarrow> 2 \<le> k \<and> k \<le> n \<and> ps ! nat k < k))"

definition sized :: "state \<Rightarrow> bool" where
  "sized st \<longleftrightarrow>
     int (length (parents (lists st))) = max_items st \<and>
     int (length (lengths (lists st))) = max_items st \<and>
     int (length (j_vec (lists st))) = max_items st \<and>
     int (length (i_vec (lists st))) = max_items st"

definition wf_lists :: "state \<Rightarrow> bool" where
  "wf_lists st \<longleftrightarrow> downward (parents (lists st)) (run_number st) \<and> sized st"

definition cap :: "state \<Rightarrow> bool" where
  "cap st \<longleftrightarrow> run_number st + 1 < max_items st"

definition mask_bounded :: "state \<Rightarrow> bool" where
  "mask_bounded st \<longleftrightarrow> (\<forall>c. mask_run st c \<le> run_number st)"

text \<open>
  Modelled from the spec: the caller of \<^verbatim>\<open>compute_runs\<close> is not part of the sources at
  hand. It hands over the lists made by \<^verbatim>\<open>init_VecList\<close> and their size; the indices 0 and
  1 are the reserved roots, so the run counter starts at 1 and the first run gets index 2.
\<close>

definition initial :: "nat \<Rightarrow> raster \<Rightarrow> state option" where
  "initial sz m =
     do { ls \<leftarrow> init_VecList sz;
          Some \<lparr>run_number = 1, lists = ls, max_items = int sz, mask_run = m\<rparr> }"

definition inv_res :: "state \<Rightarrow> bool" where
  "inv_res st \<longleftrightarrow> 1 \<le> run_number st \<and> reserved (parents (lists st)) \<and> sized st"

definition grid3 :: grid where
  "grid3 = \<lparr>xs = 0, xm = 3, ys = 0, ym = 3, Mx = 3, My = 3\<rparr>"

definition fg_hook :: "int \<Rightarrow> int \<Rightarrow> bool" where
  "fg_hook i j = ((i, j) \<in> set [(0, 0), (2, 0), (0, 1), (1, 1), (2, 1), (2, 2)])"

definition no_sink :: raster where
  "no_sink = (\<lambda>c. 0)"

definition sink_corner :: raster where
  "sink_corner = no_sink((0, 0) := 1)"

definition strictly_downward :: "state \<Rightarrow> bool" where
  "strictly_downward st \<longleftrightarrow>
     vget (parents (lists st)) 0 = Some 0 \<and> vget (parents (lists st)) 1 = Some 0 \<and>
     (\<forall>k\<in>{2..run_number st}. \<exists>p. vget (parents (lists st)) k = Some p \<and> 0 \<le> p \<and> p < k)"

definition walks_terminate :: "state \<Rightarrow> bool" where
  "walks_terminate st \<longleftrightarrow>
     (\<forall>k\<in>{0..run_number st}. trackParentRun k (parents (lists st)) \<noteq> None)"

text \<open>What a run of the code has left, when it has returned: the value of the raster at a
  cell, the entry of \<open>parents\<close> at an index, and the number of the last run.\<close>

definition label_at :: "state option \<Rightarrow> int \<times> int \<Rightarrow> int option" where
  "label_at r c = map_option (\<lambda>st. mask_run st c) r"

definition parent_at :: "state option \<Rightarrow> int \<Rightarrow> int option" where
  "parent_at r k = Option.bind r (\<lambda>st. vget (parents (lists st)) k)"

definition run_count :: "state option \<Rightarrow> int option" where
  "run_count r = map_option run_number r"

text \<open>The parent relation of the forest: an entry that is 0 marks a root and is no edge.\<close>

definition parent_rel :: "RunVec \<Rightarrow> (int \<times> int) set" where
  "parent_rel ps = {(k, p). vget ps k = Some p \<and> p \<noteq> 0}"

text \<open>A tile of one column and two rows, the upper cell foreground, and a raster whose
  lower (background) cell still holds the label 2 of an earlier invocation.\<close>

definition grid_column :: grid where
  "grid_column = \<lparr>xs = 0, xm = 1, ys = 0, ym = 2, Mx = 1, My = 2\<rparr>"

definition fg_upper :: "int \<Rightarrow> int \<Rightarrow> bool" where
  "fg_upper i j = ((i, j) = (0, 1))"

definition stale_two :: raster where
  "stale_two = no_sink((0, 0) := 2)"

text \<open>Two processes side by side on a domain of four columns and one row: the eastern one
  owns the columns 2 and 3. Every cell is foreground; the sink cell \<open>(0, 0)\<close> lies on the
  western process, which labels its two cells 1, and that is what the exchange delivers.\<close>

definition grid_east :: grid where
  "grid_east = \<lparr>xs = 2, xm = 2, ys = 0, ym = 1, Mx = 4, My = 1\<rparr>"

definition fg_all :: "int \<Rightarrow> int \<Rightarrow> bool" where
  "fg_all i j = True"

definition west_labels :: raster where
  "west_labels = no_sink((0, 0) := 1, (1, 0) := 1)"

text \<open>Two processes one above the other on a domain of one column and two rows: the
  northern one owns the cell \<open>(0, 1)\<close>, the southern one holds the sink label at \<open>(0, 0)\<close>.\<close>

definition grid_north :: grid where
  "grid_north = \<lparr>xs = 0, xm = 1, ys = 1, ym = 1, Mx = 1, My = 2\<rparr>"

definition south_labels :: raster where
  "south_labels = no_sink((0, 0) := 1)"

text \<open>The state of a process when it enters the reconciliation loop: after the scan and the
  first label resolution.\<close>

definition before_reconciliation ::
  "engine \<Rightarrow> grid \<Rightarrow> (int \<Rightarrow> int \<Rightarrow> bool) \<Rightarrow> state \<Rightarrow> state option" where
  "before_reconciliation e g ForegroundCond st =
     do { st1 \<leftarrow> scan e g ForegroundCond (points g) st; labelMask st1 }"

definition exchanged :: "grid \<Rightarrow> raster \<Rightarrow> state \<Rightarrow> state" where
  "exchanged g env st = st\<lparr>mask_run := updateGhosts g env (mask_run st)\<rparr>"

definition sink_middle :: raster where
  "sink_middle = no_sink((1, 1) := 1)"

text \<open>The scan of the 3 by 3 tile stopped after the first four cells (sink mark at \<open>(1, 1)\<close>),
  and stopped after the first eight cells (no sink mark).\<close>

definition state_row1 :: state where
  "state_row1 = the (scan SinkCC grid3 fg_hook (take 4 (points grid3)) (the (initial 4 sink_middle)))"

definition state_row2 :: state where
  "state_row2 = the (scan ConnectedComponents grid3 fg_hook (take 8 (points grid3)) (the (initial 4 no_sink)))"

text \<open>The scan order: \<open>c\<close> is visited before \<open>d\<close>.\<close>

definition before :: "int \<times> int \<Rightarrow> int \<times> int \<Rightarrow> bool" where
  "before c d \<longleftrightarrow> snd c < snd d \<or> (snd c = snd d \<and> fst c < fst d)"

text \<open>The three tests of the scan at a cell \<open>(i, j)\<close>, read off the state as the code does.\<close>

definition west_fg :: "grid \<Rightarrow> state \<Rightarrow> int \<Rightarrow> int \<Rightarrow> bool" where
  "west_fg g st i j \<longleftrightarrow> i_local_first g < i \<and> 0 < mask_run st (i - 1, j)"

definition south_fg :: "grid \<Rightarrow> state \<Rightarrow> int \<Rightarrow> int \<Rightarrow> bool" where
  "south_fg g st i j \<longleftrightarrow> j_local_first g < j \<and> 0 < mask_run st (i, j - 1)"

definition sink_here :: "engine \<Rightarrow> state \<Rightarrow> int \<Rightarrow> int \<Rightarrow> bool" where
  "sink_here e st i j \<longleftrightarrow> e = SinkCC \<and> SinkCond st i j"

text \<open>The cells of run \<open>k\<close>: the span that \<^verbatim>\<open>labelMask\<close> writes for it.\<close>

definition run_cells :: "VecList \<Rightarrow> int \<Rightarrow> (int \<times> int) set" where
  "run_cells L k =
     {(i_vec L ! nat k + n, j_vec L ! nat k) | n. 0 \<le> n \<and> n < lengths L ! nat k}"

definition fgset :: "(int \<Rightarrow> int \<Rightarrow> bool) \<Rightarrow> (int \<times> int) list \<Rightarrow> (int \<times> int) set" where
  "fgset fg cs = {c \<in> set cs. fg (fst c) (snd c)}"

text \<open>
  A raster is prepared for a tile and a foreground predicate when no owned background
  cell holds a positive value; for the run geometry only the background cells directly
  west of a foreground cell matter.
\<close>

definition prepared :: "grid \<Rightarrow> (int \<Rightarrow> int \<Rightarrow> bool) \<Rightarrow> raster \<Rightarrow> bool" where
  "prepared g fg m \<longleftrightarrow> (\<forall>c. owned g c \<and> \<not> fg (fst c) (snd c) \<longrightarrow> m c \<le> 0)"

definition west_prepared :: "grid \<Rightarrow> (int \<Rightarrow> int \<Rightarrow> bool) \<Rightarrow> raster \<Rightarrow> bool" where
  "west_prepared g fg m \<longleftrightarrow>
     (\<forall>i j. owned g (i, j) \<and> fg i j \<and> i_local_first g < i \<and> \<not> fg (i - 1) j \<longrightarrow> m (i - 1, j) \<le> 0)"

text \<open>The run geometry after the scan has visited the cells \<open>cs\<close>, from the raster \<open>m0\<close>.\<close>

definition geom :: "(int \<Rightarrow> int \<Rightarrow> bool) \<Rightarrow> raster \<Rightarrow> (int \<times> int) list \<Rightarrow> state \<Rightarrow> bool" where
  "geom fg m0 cs st \<longleftrightarrow>
     1 \<le> run_number st \<and> sized st \<and> run_number st < max_items st \<and>
     lengths (lists st) ! 0 = 0 \<and> lengths (lists st) ! 1 = 0 \<and>
     (\<forall>c. c \<notin> fgset fg cs \<longrightarrow> mask_run st c = m0 c) \<and>
     (\<forall>c\<in>fgset fg cs. 2 \<le> mask_run st c \<and> mask_run st c \<le> run_number st \<and>
                        c \<in> run_cells (lists st) (mask_run st c)) \<and>
     (\<forall>k. 2 \<le> k \<and> k \<le> run_number st \<longrightarrow>
          1 \<le> lengths (lists st) ! nat k \<and>
          (\<forall>c\<in>run_cells (lists st) k. c \<in> fgset fg cs \<and> mask_run st c = k)) \<and>
     (cs \<noteq> [] \<and> last cs \<in> fgset fg cs \<longrightarrow>
          2 \<le> run_number st \<and>
          last cs = (i_vec (lists st) ! nat (run_number st) +
                       lengths (lists st) ! nat (run_number st) - 1,
                     j_vec (lists st) ! nat (run_number st)))"

text \<open>The growth of the lists at the end of a round of the scan.\<close>

definition grow :: "grid \<Rightarrow> state \<Rightarrow> state" where
  "grow g st =
     (if run_number st + 1 \<ge> max_items st
      then st\<lparr>max_items := max_items st + ym g,
              lists := resizeLists (lists st) (max_items st + ym g)\<rparr>
      else st)"

text \<open>A row of four cells whose two end cells are foreground; the background cell
  \<open>(2, 0)\<close> still holds the label 5 of an earlier invocation.\<close>

definition grid_row4 :: grid where
  "grid_row4 = \<lparr>xs = 0, xm = 4, ys = 0, ym = 1, Mx = 4, My = 1\<rparr>"

definition fg_ends :: "int \<Rightarrow> int \<Rightarrow> bool" where
  "fg_ends i j = ((i, j) \<in> set [(0, 0), (3, 0)])"

definition stale_five :: raster where
  "stale_five = no_sink((2, 0) := 5)"

definition stale_harmless :: raster where
  "stale_harmless = no_sink((1, 0) := 5)"

text \<open>The resolved label of run \<open>k\<close>, where the walk returns.\<close>

definition root :: "RunVec \<Rightarrow> int \<Rightarrow> int" where
  "root ps k = the (trackParentRun k ps)"

text \<open>Connectivity over a set of edges, read in both directions.\<close>

definition conn :: "('a \<times> 'a) set \<Rightarrow> ('a \<times> 'a) set" where
  "conn E = (E \<union> E\<inverse>)\<^sup>*"

text \<open>
  What the labels \<open>lb\<close> of the cells \<open>F\<close> say about the graph with the edges \<open>E\<close> and the
  sink cells \<open>Sk\<close>: the two ends of an edge carry the same label, a sink cell carries 1,
  cells with the same label other than 1 are connected, and a cell with label 1 is connected
  to a sink cell.
\<close>

definition cc_inv :: "'a set \<Rightarrow> ('a \<times> 'a) set \<Rightarrow> 'a set \<Rightarrow> ('a \<Rightarrow> int) \<Rightarrow> bool" where
  "cc_inv F E Sk lb \<longleftrightarrow>
     E \<subseteq> F \<times> F \<and> Sk \<subseteq> F \<and>
     (\<forall>x y. (x, y) \<in> E \<longrightarrow> lb x = lb y) \<and>
     (\<forall>x\<in>Sk. lb x = 1) \<and>
     (\<forall>x\<in>F. \<forall>y\<in>F. lb x = lb y \<and> lb x \<noteq> 1 \<longrightarrow> (x, y) \<in> conn E) \<and>
     (\<forall>x\<in>F. lb x = 1 \<longrightarrow> (\<exists>z\<in>Sk. (x, z) \<in> conn E))"

text \<open>
  The adjacency the scan looks at: from a foreground cell to its west and to its south
  neighbour, both among the cells \<open>F\<close>.
\<close>

definition edges :: "(int \<times> int) set \<Rightarrow> ((int \<times> int) \<times> (int \<times> int)) set" where
  "edges F = {(x, y). x \<in> F \<and> y \<in> F \<and> (y = (fst x - 1, snd x) \<or> y = (fst x, snd x - 1))}"

text \<open>The sink cells among \<open>F\<close>: with the sink engine, the cells whose raster value was 1
  when the invocation started (\<^verbatim>\<open>SinkCond\<close> reads the raster before the scan writes the cell).\<close>

definition sinks :: "engine \<Rightarrow> raster \<Rightarrow> (int \<times> int) set \<Rightarrow> (int \<times> int) set" where
  "sinks e m0 F = {x \<in> F. e = SinkCC \<and> m0 x = 1}"

text \<open>The label a cell resolves to: the root of the run whose index the raster holds.\<close>

definition lab :: "state \<Rightarrow> int \<times> int \<Rightarrow> int" where
  "lab st x = root (parents (lists st)) (mask_run st x)"

definition full_inv ::
  "engine \<Rightarrow> (int \<Rightarrow> int \<Rightarrow> bool) \<Rightarrow> raster \<Rightarrow> (int \<times> int) list \<Rightarrow> state \<Rightarrow> bool" where
  "full_inv e fg m0 cs st \<longleftrightarrow>
     geom fg m0 cs st \<and> wf_lists st \<and> cap st \<and>
     cc_inv (fgset fg cs) (edges (fgset fg cs)) (sinks e m0 (fgset fg cs)) (lab st)"

text \<open>
  Modelled from the spec: the foreground cells of a tile, the adjacency of the 4-neighbour
  stencil, and the components it spans among the foreground cells of the tile.
\<close>

definition fg_cells :: "grid \<Rightarrow> (int \<Rightarrow> int \<Rightarrow> bool) \<Rightarrow> (int \<times> int) set" where
  "fg_cells g fg = {c. owned g c \<and> fg (fst c) (snd c)}"

definition adjacent :: "int \<times> int \<Rightarrow> int \<times> int \<Rightarrow> bool" where
  "adjacent c d \<longleftrightarrow>
     (snd c = snd d \<and> (fst c = fst d + 1 \<or> fst d = fst c + 1)) \<or>
     (fst c = fst d \<and> (snd c = snd d + 1 \<or> snd d = snd c + 1))"

definition component :: "grid \<Rightarrow> (int \<Rightarrow> int \<Rightarrow> bool) \<Rightarrow> ((int \<times> int) \<times> (int \<times> int)) set" where
  "component g fg =
     {(c, d). c \<in> fg_cells g fg \<and> d \<in> fg_cells g fg \<and> adjacent c d}\<^sup>*"

text \<open>Two tiles side by side on a domain of four cells in a row; \<open>grid_east\<close> is the
  eastern one.\<close>

definition grid_west :: grid where
  "grid_west = \<lparr>xs = 0, xm = 2, ys = 0, ym = 1, Mx = 4, My = 1\<rparr>"

subsection \<open>The runs depend on the foreground only\<close>

text \<open>Two states hold the same runs: the same count, capacity, starts and lengths.\<close>

definition same_runs :: "state \<Rightarrow> state \<Rightarrow> bool" where
  "same_runs st st' \<longleftrightarrow>
     run_number st = run_number st' \<and> max_items st = max_items st' \<and>
     lengths (lists st) = lengths (lists st') \<and>
     i_vec (lists st) = i_vec (lists st') \<and> j_vec (lists st) = j_vec (lists st')"

text \<open>A tile of four by two cells with the foreground cells \<open>(0, 0)\<close>, \<open>(3, 0)\<close> and
  \<open>(1, 1)\<close>; the raster holds the sink mark 1 at the background cell \<open>(2, 0)\<close>.\<close>

definition grid_two_rows :: grid where
  "grid_two_rows = \<lparr>xs = 0, xm = 4, ys = 0, ym = 2, Mx = 4, My = 2\<rparr>"

definition fg_three :: "int \<Rightarrow> int \<Rightarrow> bool" where
  "fg_three i j = ((i, j) \<in> set [(0, 0), (3, 0), (1, 1)])"

definition sink_background :: raster where
  "sink_background = no_sink((2, 0) := 1)"

text \<open>The process owns the whole domain: its tile has no inner margin.\<close>

definition whole_domain :: "grid \<Rightarrow> bool" where
  "whole_domain g \<longleftrightarrow> xs g = 0 \<and> xm g = Mx g \<and> ys g = 0 \<and> ym g = My g"

text \<open>A raster for the 3 by 3 tile that still holds labels of an earlier invocation at two
  of its foreground cells.\<close>

definition stale_labels :: raster where
  "stale_labels = no_sink((0, 0) := 7, (2, 1) := 3)"

section \<open>Properties\<close>

lemma vget_Some: "vget v k = Some x \<longleftrightarrow> 0 \<le> k \<and> k < int (length v) \<and> v ! nat k = x"
  by (auto simp: vget_def)

lemma vset_Some: "vset v k x = Some v' \<longleftrightarrow> 0 \<le> k \<and> k < int (length v) \<and> v' = v[nat k := x]"
  by (auto simp: vset_def)

lemma track_root: 
  assumes "trackParentRun run ps = Some r" shows "vget ps r = Some 0"
  by (rule trackParentRun.raw_induct[where P = "\<lambda>run ps r. vget ps r = Some 0", OF _ assms])
     (auto simp: bind_eq_Some_conv split: if_splits)

lemma track_start:
  assumes "trackParentRun run ps = Some r" shows "\<exists>p. vget ps run = Some p"
  using assms by (subst (asm) trackParentRun.simps) (auto simp: bind_eq_Some_conv)

lemma track_positive:
  assumes "trackParentRun run ps = Some r" and "\<forall>x\<in>set ps. 0 \<le> x" and "0 < run"
  shows "0 < r"
proof -
  have "(\<forall>x\<in>set ps. 0 \<le> x) \<longrightarrow> 0 < run \<longrightarrow> 0 < r"
  proof (rule trackParentRun.raw_induct[where P = "\<lambda>run ps r. (\<forall>x\<in>set ps. 0 \<le> x) \<longrightarrow> 0 < run \<longrightarrow> 0 < r", OF _ assms(1)])
    fix f run ps r
    assume IH: "\<And>run ps r. f run ps = Some r \<Longrightarrow> (\<forall>x\<in>set ps. 0 \<le> x) \<longrightarrow> 0 < run \<longrightarrow> 0 < r"
      and step: "vget ps run \<bind> (\<lambda>p. if p \<noteq> 0 then f p ps else Some run) = Some r"
    from step obtain p where p: "vget ps run = Some p" 
      and rest: "(if p \<noteq> 0 then f p ps else Some run) = Some r"
      by (auto simp: bind_eq_Some_conv)
    show "(\<forall>x\<in>set ps. 0 \<le> x) \<longrightarrow> 0 < run \<longrightarrow> 0 < r"
    proof (intro impI)
      assume nn: "\<forall>x\<in>set ps. 0 \<le> x" and pos: "0 < run"
      show "0 < r"
      proof (cases "p = 0")
        case True
        with rest pos show ?thesis by simp
      next
        case False
        from p have "p \<in> set ps" by (auto simp: vget_Some)
        with nn False have "0 < p" by fastforce
        with False rest IH[of p ps r] nn show ?thesis by simp
      qed
    qed
  qed
  with assms show ?thesis by simp
qed

lemma reserved_update:
  assumes "reserved ps" "2 \<le> k" "0 \<le> x"
  shows "reserved (ps[nat k := x])"
proof -
  have "set (ps[nat k := x]) \<subseteq> insert x (set ps)" by (rule set_update_subset_insert)
  with assms show ?thesis unfolding reserved_def by auto
qed

lemma run_union_reserved:
  assumes "run_union ps a b = Some ps'" "reserved ps" "0 < a" "0 < b"
  shows "reserved ps'"
proof (cases "ps' = ps")
  case True with assms show ?thesis by simp
next
  case False
  with assms(1) obtain r1 r2 where r: "trackParentRun a ps = Some r1" "trackParentRun b ps = Some r2"
    and upd: "ps' = (if r1 > r2 then ps[nat r1 := r2] else ps[nat r2 := r1])" "r1 \<noteq> r2"
    unfolding run_union_def 
    by (auto simp: bind_eq_Some_conv vset_Some split: if_splits)
  from assms(2) have nn: "\<forall>x\<in>set ps. 0 \<le> x" by (simp add: reserved_def)
  from track_positive[OF r(1) nn assms(3)] track_positive[OF r(2) nn assms(4)]
  have "0 < r1" "0 < r2" .
  with upd assms(2) show ?thesis by (auto intro!: reserved_update)
qed

lemma setRunSink_reserved:
  assumes "setRunSink run ps = Some ps'" "reserved ps"
  shows "reserved ps'"
proof (cases "ps' = ps")
  case True with assms show ?thesis by simp
next
  case False
  with assms(1) obtain r where r: "trackParentRun run ps = Some r" "r \<noteq> 1" "ps' = ps[nat r := 1]"
      and run: "run \<noteq> 0" "run \<noteq> 1"
    unfolding setRunSink_def by (auto simp: bind_eq_Some_conv vset_Some split: if_splits)
  from track_start[OF r(1)] run have "0 < run" by (auto simp: vget_Some)
  from assms(2) have nn: "\<forall>x\<in>set ps. 0 \<le> x" by (simp add: reserved_def)
  from track_positive[OF r(1) nn \<open>0 < run\<close>] r(2) have "2 \<le> r" by simp
  with r(3) assms(2) show ?thesis by (auto intro!: reserved_update)
qed

lemma downwardD:
  assumes "downward ps n" "0 \<le> k" "k < int (length ps)"
  shows "0 \<le> ps ! nat k" "ps ! nat k \<noteq> 0 \<Longrightarrow> 2 \<le> k \<and> k \<le> n \<and> ps ! nat k < k"
  using assms unfolding downward_def by auto

lemma downwardI:
  assumes "1 \<le> n" "n < int (length ps)"
    and "\<And>k. 0 \<le> k \<Longrightarrow> k < int (length ps) \<Longrightarrow>
           0 \<le> ps ! nat k \<and> (ps ! nat k \<noteq> 0 \<longrightarrow> 2 \<le> k \<and> k \<le> n \<and> ps ! nat k < k)"
  shows "downward ps n"
  using assms unfolding downward_def by auto

lemma downward_reserved:
  assumes "downward ps n" shows "reserved ps"
proof -
  from assms have len: "2 \<le> int (length ps)" unfolding downward_def by auto
  from len have ne: "ps \<noteq> []" by auto
  from len ne downwardD[OF assms, of 0] downwardD[OF assms, of 1]
  have "ps ! 0 = 0" "ps ! 1 = 0" by auto
  moreover have "\<forall>x\<in>set ps. 0 \<le> x"
  proof
    fix x assume "x \<in> set ps"
    then obtain i where "i < length ps" "x = ps ! i" by (auto simp: in_set_conv_nth)
    with downwardD(1)[OF assms, of "int i"] show "0 \<le> x" by simp
  qed
  ultimately show ?thesis using len by (simp add: reserved_def)
qed

lemma track_downward:
  assumes "downward ps n" "0 \<le> k" "k \<le> n"
  shows "\<exists>r. trackParentRun k ps = Some r \<and> 0 \<le> r \<and> r \<le> k \<and> (1 \<le> k \<longrightarrow> 1 \<le> r)"
  using assms(2,3)
proof (induct "nat k" arbitrary: k rule: less_induct)
  case less
  from assms(1) have "n < int (length ps)" by (simp add: downward_def)
  with less.prems have inr: "k < int (length ps)" by linarith
  then have g: "vget ps k = Some (ps ! nat k)" using less.prems by (simp add: vget_def)
  show ?case
  proof (cases "ps ! nat k = 0")
    case True
    then have "trackParentRun k ps = Some k"
      by (subst trackParentRun.simps) (simp add: g)
    with less.prems show ?thesis by simp
  next
    case False
    from downwardD[OF assms(1) less.prems(1) inr] False
    have p: "0 \<le> ps ! nat k" "ps ! nat k < k" "2 \<le> k" by auto
    with False have p1: "1 \<le> ps ! nat k" by simp
    from p less.prems have "nat (ps ! nat k) < nat k" by simp
    from less.hyps[OF this p(1)] p less.prems
    obtain r where r: "trackParentRun (ps ! nat k) ps = Some r" "0 \<le> r" "r \<le> ps ! nat k"
       "1 \<le> ps ! nat k \<longrightarrow> 1 \<le> r" by auto
    have "trackParentRun k ps = Some r"
      by (subst trackParentRun.simps) (simp add: g False r(1))
    with r p p1 show ?thesis by auto
  qed
qed

lemma downward_link:
  assumes d: "downward ps n" and r1: "2 \<le> r1" "r1 \<le> n" "ps ! nat r1 = 0" and r2: "0 \<le> r2" "r2 < r1"
  shows "downward (ps[nat r1 := r2]) n"
proof (rule downwardI)
  from d show "1 \<le> n" by (simp add: downward_def)
  from d show "n < int (length (ps[nat r1 := r2]))" by (simp add: downward_def)
  fix k assume "0 \<le> k" "k < int (length (ps[nat r1 := r2]))"
  then have k: "0 \<le> k" "k < int (length ps)" by auto
  show "0 \<le> ps[nat r1 := r2] ! nat k \<and>
         (ps[nat r1 := r2] ! nat k \<noteq> 0 \<longrightarrow> 2 \<le> k \<and> k \<le> n \<and> ps[nat r1 := r2] ! nat k < k)"
  proof (cases "k = r1")
    case True
    with k r1 r2 show ?thesis by simp
  next
    case False
    with k r1 have "nat k \<noteq> nat r1" by auto
    with downwardD[OF d k] show ?thesis by simp
  qed
qed

lemma run_union_downward:
  assumes d: "downward ps n" and a: "1 \<le> a" "a \<le> n" and b: "1 \<le> b" "b \<le> n"
  shows "\<exists>ps'. run_union ps a b = Some ps' \<and> downward ps' n \<and> length ps' = length ps"
proof -
  from d have len: "n < int (length ps)" by (simp add: downward_def)
  from track_downward[OF d, of a] a obtain r1 where
    r1: "trackParentRun a ps = Some r1" "1 \<le> r1" "r1 \<le> a" by auto
  from track_downward[OF d, of b] b obtain r2 where
    r2: "trackParentRun b ps = Some r2" "1 \<le> r2" "r2 \<le> b" by auto
  from a b len have ga: "vget ps a = Some (ps ! nat a)" and gb: "vget ps b = Some (ps ! nat b)"
    by (auto simp: vget_def)
  from track_root[OF r1(1)] track_root[OF r2(1)]
  have z: "ps ! nat r1 = 0" "ps ! nat r2 = 0" by (auto simp: vget_Some)
  have in1: "r1 < int (length ps)" "r2 < int (length ps)" using r1 r2 a b len by auto
  consider "ps ! nat a = b \<or> ps ! nat b = a \<or> r1 = r2" | "ps ! nat a \<noteq> b" "ps ! nat b \<noteq> a" "r2 < r1"
    | "ps ! nat a \<noteq> b" "ps ! nat b \<noteq> a" "r1 < r2" by linarith
  then show ?thesis
  proof cases
    case 1
    then have "run_union ps a b = Some ps"
      by (auto simp: run_union_def ga gb r1 r2)
    with d show ?thesis by simp
  next
    case 2
    then have "run_union ps a b = Some (ps[nat r1 := r2])"
      using in1 r1 r2 by (simp add: run_union_def ga gb vset_def)
    moreover have "downward (ps[nat r1 := r2]) n"
      using downward_link[OF d _ _ z(1), of r2] r1 r2 2 a by auto
    ultimately show ?thesis by simp
  next
    case 3
    then have "run_union ps a b = Some (ps[nat r2 := r1])"
      using in1 r1 r2 by (simp add: run_union_def ga gb vset_def)
    moreover have "downward (ps[nat r2 := r1]) n"
      using downward_link[OF d _ _ z(2), of r1] r1 r2 3 b by auto
    ultimately show ?thesis by simp
  qed
qed

lemma setRunSink_downward:
  assumes d: "downward ps n" and a: "1 \<le> a" "a \<le> n"
  shows "\<exists>ps'. setRunSink a ps = Some ps' \<and> downward ps' n \<and> length ps' = length ps"
proof -
  from d have len: "n < int (length ps)" by (simp add: downward_def)
  from track_downward[OF d, of a] a obtain r1 where
    r1: "trackParentRun a ps = Some r1" "1 \<le> r1" "r1 \<le> a" by auto
  from track_root[OF r1(1)] have z: "ps ! nat r1 = 0" by (auto simp: vget_Some)
  have in1: "r1 < int (length ps)" using r1 a len by auto
  show ?thesis
  proof (cases "a = 1 \<or> r1 = 1")
    case True
    then have "setRunSink a ps = Some ps" by (auto simp: setRunSink_def r1)
    with d show ?thesis by simp
  next
    case False
    then have "setRunSink a ps = Some (ps[nat r1 := 1])"
      using a r1 in1 by (auto simp: setRunSink_def vset_def)
    moreover have "downward (ps[nat r1 := 1]) n"
      using downward_link[OF d _ _ z, of 1] r1 a False by auto
    ultimately show ?thesis by simp
  qed
qed

lemma downward_new:
  assumes d: "downward ps n" and cap: "n + 1 < int (length ps)" and p: "0 \<le> p" "p \<le> n"
  shows "downward (ps[nat (n + 1) := p]) (n + 1)"
proof (rule downwardI)
  from d show "1 \<le> n + 1" by (simp add: downward_def)
  from cap show "n + 1 < int (length (ps[nat (n + 1) := p]))" by simp
  fix k assume "0 \<le> k" "k < int (length (ps[nat (n + 1) := p]))"
  then have k: "0 \<le> k" "k < int (length ps)" by auto
  from d have n1: "1 \<le> n" by (simp add: downward_def)
  show "0 \<le> ps[nat (n + 1) := p] ! nat k \<and>
         (ps[nat (n + 1) := p] ! nat k \<noteq> 0 \<longrightarrow> 2 \<le> k \<and> k \<le> n + 1 \<and> ps[nat (n + 1) := p] ! nat k < k)"
  proof (cases "k = n + 1")
    case True
    with k p n1 show ?thesis by simp
  next
    case False
    with k n1 have "nat k \<noteq> nat (n + 1)" by auto
    with downwardD[OF d k] show ?thesis by auto
  qed
qed

lemma downward_resize:
  assumes d: "downward ps n" and m: "length ps \<le> m"
  shows "downward (resize ps m) n"
proof (rule downwardI)
  from d show "1 \<le> n" by (simp add: downward_def)
  from d m show "n < int (length (resize ps m))" by (simp add: downward_def resize_def)
  fix k assume "0 \<le> k" "k < int (length (resize ps m))"
  then have k: "0 \<le> k" "k < int m" using m by (auto simp: resize_def)
  from m have rs: "resize ps m = ps @ replicate (m - length ps) 0" by (simp add: resize_def)
  show "0 \<le> resize ps m ! nat k \<and>
         (resize ps m ! nat k \<noteq> 0 \<longrightarrow> 2 \<le> k \<and> k \<le> n \<and> resize ps m ! nat k < k)"
  proof (cases "k < int (length ps)")
    case True
    with k have "nat k < length ps" by simp
    then have "resize ps m ! nat k = ps ! nat k" by (simp add: rs nth_append)
    with downwardD[OF d k(1) True] show ?thesis by simp
  next
    case False
    with k have "\<not> nat k < length ps" "nat k - length ps < m - length ps" by auto
    then have "resize ps m ! nat k = 0" by (simp add: rs nth_append)
    then show ?thesis by simp
  qed
qed

lemma CC_startNewRun_wf:
  assumes "wf_lists st" "cap st" "0 \<le> p" "p \<le> run_number st"
  shows "\<exists>st'. CC_startNewRun i j p st = Some st' \<and> wf_lists st' \<and>
           run_number st' = run_number st + 1 \<and> max_items st' = max_items st \<and>
           mask_run st' = mask_run st"
proof -
  let ?n = "run_number st + 1"
  from assms have d: "downward (parents (lists st)) (run_number st)" and s: "sized st"
    by (auto simp: wf_lists_def)
  from d have n1: "1 \<le> run_number st" by (simp add: downward_def)
  from s assms(2) have c: "?n < int (length (parents (lists st)))" by (simp add: sized_def cap_def)
  from downward_new[OF d c assms(3,4)] 
  have d': "downward ((parents (lists st))[nat ?n := p]) ?n" .
  from s assms(2) n1 show ?thesis
    by (simp add: CC_startNewRun_def Let_def vset_def sized_def cap_def wf_lists_def d')
qed

lemma CC_continueRun_wf:
  assumes "wf_lists st"
  shows "\<exists>st'. CC_continueRun i j st = Some st' \<and> wf_lists st' \<and>
           run_number st' = run_number st \<and> max_items st' = max_items st \<and>
           mask_run st' = mask_run st \<and> parents (lists st') = parents (lists st)"
proof -
  from assms have d: "downward (parents (lists st)) (run_number st)" and s: "sized st"
    by (auto simp: wf_lists_def)
  from d have n1: "1 \<le> run_number st" "run_number st < int (length (parents (lists st)))"
    by (auto simp: downward_def)
  with s d show ?thesis
    by (simp add: CC_continueRun_def Let_def vset_def vget_def sized_def wf_lists_def)
qed

lemma SinkCC_continueRun_wf:
  assumes "wf_lists st"
  shows "\<exists>st'. SinkCC_continueRun i j st = Some st' \<and> wf_lists st' \<and>
           run_number st' = run_number st \<and> max_items st' = max_items st \<and>
           mask_run st' = mask_run st"
proof -
  from CC_continueRun_wf[OF assms, of i j] obtain st1 where
    st1: "CC_continueRun i j st = Some st1" "wf_lists st1" "run_number st1 = run_number st"
       "max_items st1 = max_items st" "mask_run st1 = mask_run st" by auto
  from st1(2) have d: "downward (parents (lists st1)) (run_number st1)" and s: "sized st1"
    by (auto simp: wf_lists_def)
  from d have n1: "1 \<le> run_number st1" by (simp add: downward_def)
  from setRunSink_downward[OF d n1] obtain ps' where
    ps': "setRunSink (run_number st1) (parents (lists st1)) = Some ps'"
      "downward ps' (run_number st1)" "length ps' = length (parents (lists st1))" by auto
  with st1 s show ?thesis
    by (auto simp: SinkCC_continueRun_def wf_lists_def sized_def)
qed

lemma startNewRun_wf:
  assumes "wf_lists st" "cap st" "0 \<le> p" "p \<le> run_number st"
  shows "\<exists>st'. startNewRun e i j p st = Some st' \<and> wf_lists st' \<and>
           run_number st' = run_number st + 1 \<and> max_items st' = max_items st \<and>
           mask_run st' = mask_run st"
proof (cases e)
  case ConnectedComponents
  with CC_startNewRun_wf[OF assms] show ?thesis by simp
next
  case SinkCC
  from assms(1) have "1 \<le> run_number st" by (simp add: wf_lists_def downward_def)
  with SinkCC CC_startNewRun_wf[OF assms(1,2), of "if SinkCond st i j then 1 else p" i j] assms(3,4)
  show ?thesis by (simp add: SinkCC_startNewRun_def)
qed

lemma continueRun_wf:
  assumes "wf_lists st"
  shows "\<exists>st'. continueRun e i j st = Some st' \<and> wf_lists st' \<and>
           run_number st' = run_number st \<and> max_items st' = max_items st \<and>
           mask_run st' = mask_run st"
proof (cases e)
  case ConnectedComponents
  with CC_continueRun_wf[OF assms, of i j] show ?thesis by auto
next
  case SinkCC
  with SinkCC_continueRun_wf[OF assms, of i j] show ?thesis by simp
qed

lemma mergeRuns_wf:
  assumes "wf_lists st" "1 \<le> s" "s \<le> run_number st"
  shows "\<exists>st'. mergeRuns (run_number st) s st = Some st' \<and> wf_lists st' \<and>
           run_number st' = run_number st \<and> max_items st' = max_items st \<and>
           mask_run st' = mask_run st"
proof -
  from assms have d: "downward (parents (lists st)) (run_number st)" and sz: "sized st"
    by (auto simp: wf_lists_def)
  from d have n1: "1 \<le> run_number st" by (simp add: downward_def)
  from run_union_downward[OF d assms(2,3) n1] obtain ps' where
    "run_union (parents (lists st)) s (run_number st) = Some ps'"
    "downward ps' (run_number st)" "length ps' = length (parents (lists st))" by auto
  with sz show ?thesis by (auto simp: mergeRuns_def wf_lists_def sized_def)
qed

lemma startNewRun_cap:
  assumes "startNewRun e i j p st = Some st'" "sized st"
  shows "cap st"
proof -
  from assms(1) have "\<exists>q. CC_startNewRun i j q st = Some st'"
    by (cases e) (auto simp: SinkCC_startNewRun_def)
  then show ?thesis using assms(2)
    by (auto simp: CC_startNewRun_def Let_def bind_eq_Some_conv vset_Some cap_def sized_def)
qed

lemma checkForegroundPixel_wf:
  assumes "wf_lists st"
    and newc: "i \<le> i_local_first g \<or> mask_run st (i - 1, j) \<le> 0 \<Longrightarrow> cap st"
    and south: "j_local_first g < j \<Longrightarrow> mask_run st (i, j - 1) \<le> run_number st"
  shows "\<exists>st'. checkForegroundPixel e g i j st = Some st' \<and> wf_lists st' \<and>
           run_number st \<le> run_number st' \<and> run_number st' \<le> run_number st + 1 \<and>
           max_items st' = max_items st \<and> mask_run st' = mask_run st"
proof -
  let ?s = "mask_run st (i, j - 1)"
  let ?south = "\<not> j \<le> j_local_first g \<and> ?s > 0"
  let ?p = "if ?south then ?s else 0"
  let ?cont = "\<not> i \<le> i_local_first g \<and> mask_run st (i - 1, j) > 0"
  have p: "0 \<le> ?p" "?p \<le> run_number st" using south assms(1)
    by (auto simp: wf_lists_def downward_def)
  have "\<exists>st1. (if ?cont then continueRun e i j st else startNewRun e i j ?p st) = Some st1 \<and>
           wf_lists st1 \<and>
           run_number st \<le> run_number st1 \<and> run_number st1 \<le> run_number st + 1 \<and>
           max_items st1 = max_items st \<and> mask_run st1 = mask_run st"
  proof (cases ?cont)
    case True
    with continueRun_wf[OF assms(1), of e i j] show ?thesis by auto
  next
    case False
    then have "cap st" using newc by auto
    from startNewRun_wf[OF assms(1) this p, of e i j] False show ?thesis by auto
  qed
  then obtain st1 where st1: "(if ?cont then continueRun e i j st
                 else startNewRun e i j ?p st) = Some st1" "wf_lists st1"
           "run_number st \<le> run_number st1" "run_number st1 \<le> run_number st + 1"
           "max_items st1 = max_items st" "mask_run st1 = mask_run st" by blast
  show ?thesis
  proof (cases ?south)
    case True
    with south st1(3) have "1 \<le> ?s" "?s \<le> run_number st1" by auto
    from mergeRuns_wf[OF st1(2) this] st1 True show ?thesis
      by (auto simp: checkForegroundPixel_def Let_def)
  next
    case False
    with st1 show ?thesis by (auto simp: checkForegroundPixel_def Let_def)
  qed
qed

lemma checkForegroundPixel_cap:
  assumes "checkForegroundPixel e g i j st = Some st'" "sized st"
    and "i \<le> i_local_first g \<or> mask_run st (i - 1, j) \<le> 0"
  shows "cap st"
proof -
  from assms(1,3) obtain p st1 where "startNewRun e i j p st = Some st1"
    by (auto simp: checkForegroundPixel_def Let_def bind_eq_Some_conv split: if_splits)
  from startNewRun_cap[OF this assms(2)] show ?thesis .
qed

lemma points_owned: "c \<in> set (points g) \<Longrightarrow> owned g c"
  by (auto simp: points_def owned_def)

lemma owned_points: "owned g c \<Longrightarrow> c \<in> set (points g)"
  by (cases c) (force simp: points_def owned_def)

lemma owned_ym: "owned g c \<Longrightarrow> 1 \<le> ym g \<and> 1 \<le> xm g"
  by (auto simp: owned_def i_local_last_def j_local_last_def)

lemma length_resize: "length (resize v n) = n"
  by (simp add: resize_def min_def)

lemma sized_resize:
  assumes "0 \<le> m"
  shows "sized (st\<lparr>max_items := m, lists := resizeLists (lists st) m\<rparr>)"
  using assms by (simp add: sized_def resizeLists_def length_resize)

lemma scan_step_wf:
  assumes "wf_lists st" "1 \<le> ym g"
    and newc: "fg (fst c) (snd c) \<Longrightarrow>
               fst c \<le> i_local_first g \<or> mask_run st (fst c - 1, snd c) \<le> 0 \<Longrightarrow> cap st"
    and south: "j_local_first g < snd c \<Longrightarrow> mask_run st (fst c, snd c - 1) \<le> run_number st"
  shows "\<exists>st'. scan_step e g fg c st = Some st' \<and> wf_lists st' \<and> (cap st \<longrightarrow> cap st') \<and>
           run_number st \<le> run_number st' \<and> run_number st' \<le> run_number st + 1 \<and>
           mask_run st' = (if fg (fst c) (snd c) then (mask_run st)(c := run_number st') else mask_run st)"
proof (cases "fg (fst c) (snd c)")
  case False
  with assms show ?thesis by (auto simp: scan_step_def split: prod.splits)
next
  case True
  obtain i j where c: "c = (i, j)" by (cases c)
  from checkForegroundPixel_wf[OF assms(1), where e = e and i = i and j = j and g = g] south newc c True
  obtain st1 where st1: "checkForegroundPixel e g i j st = Some st1" "wf_lists st1"
     "run_number st \<le> run_number st1" "run_number st1 \<le> run_number st + 1"
     "max_items st1 = max_items st" "mask_run st1 = mask_run st" by auto
  let ?st2 = "st1\<lparr>mask_run := (mask_run st1)((i, j) := run_number st1)\<rparr>"
  have wf2: "wf_lists ?st2" using st1(2) by (simp add: wf_lists_def sized_def)
  show ?thesis
  proof (cases "run_number st1 + 1 \<ge> max_items st1")
    case False
    then have "scan_step e g fg c st = Some ?st2"
      using True c st1(1) by (simp add: scan_step_def)
    moreover from False have "cap ?st2" by (simp add: cap_def)
    ultimately show ?thesis using wf2 st1 True c by auto
  next
    case ge: True
    let ?m = "max_items st1 + ym g"
    let ?st3 = "?st2\<lparr>max_items := ?m, lists := resizeLists (lists ?st2) ?m\<rparr>"
    have s3: "scan_step e g fg c st = Some ?st3"
      using True c st1(1) ge by (simp add: scan_step_def Let_def)
    from st1(2) have sz1: "sized st1" and d1: "downward (parents (lists st1)) (run_number st1)"
      by (auto simp: wf_lists_def)
    from sz1 have m0: "0 \<le> max_items st1" by (simp add: sized_def)
    with assms(2) have m: "0 \<le> ?m" by simp
    from sz1 have len: "int (length (parents (lists st1))) = max_items st1" by (simp add: sized_def)
    with assms(2) have "length (parents (lists st1)) \<le> nat ?m" by linarith
    from downward_resize[OF d1 this]
    have "downward (parents (lists ?st3)) (run_number ?st3)" by (simp add: resizeLists_def)
    moreover have "sized ?st3" using sized_resize[OF m, of ?st2] by simp
    moreover from d1 len have "run_number st1 < max_items st1" by (simp add: downward_def)
    then have "cap ?st3" using assms(2) by (simp add: cap_def)
    ultimately show ?thesis using s3 st1 True c by (auto simp: wf_lists_def)
  qed
qed

lemma scan_step_cap:
  assumes "scan_step e g fg c st = Some st'" "sized st" "fg (fst c) (snd c)"
    and "fst c \<le> i_local_first g \<or> mask_run st (fst c - 1, snd c) \<le> 0"
  shows "cap st"
proof -
  obtain i j where c: "c = (i, j)" by (cases c)
  with assms(1,3) obtain st1 where "checkForegroundPixel e g i j st = Some st1"
    by (auto simp: scan_step_def bind_eq_Some_conv)
  from checkForegroundPixel_cap[OF this assms(2)] assms(4) c show ?thesis by simp
qed

lemma scan_step_bounded:
  assumes "wf_lists st" "mask_bounded st" "c \<in> set (points g)" 
    and "cap st \<or> scan_step e g fg c st \<noteq> None"
  shows "\<exists>st'. scan_step e g fg c st = Some st' \<and> wf_lists st' \<and> mask_bounded st' \<and>
           (cap st \<longrightarrow> cap st')"
proof -
  from assms(3) have "owned g c" by (auto intro: points_owned)
  then have ym: "1 \<le> ym g" by (simp add: owned_ym)
  from assms(2) have sb: "mask_run st (fst c, snd c - 1) \<le> run_number st"
    unfolding mask_bounded_def by blast
  have newc: "cap st" if "fg (fst c) (snd c)"
     "fst c \<le> i_local_first g \<or> mask_run st (fst c - 1, snd c) \<le> 0"
  proof (cases "cap st")
    case False
    with assms(4) obtain st' where "scan_step e g fg c st = Some st'" by auto
    from scan_step_cap[OF this _ that] assms(1) show ?thesis by (simp add: wf_lists_def)
  qed
  from scan_step_wf[OF assms(1) ym newc sb, where e = e]
  obtain st1 where st1: "scan_step e g fg c st = Some st1" "wf_lists st1" "cap st \<longrightarrow> cap st1"
     "run_number st \<le> run_number st1"
     "mask_run st1 = (if fg (fst c) (snd c) then (mask_run st)(c := run_number st1) else mask_run st)"
    by auto
  have "mask_bounded st1" unfolding mask_bounded_def
  proof
    fix d
    from assms(2) have "mask_run st d \<le> run_number st" unfolding mask_bounded_def by blast
    with st1(4,5) show "mask_run st1 d \<le> run_number st1" by auto
  qed
  with st1 show ?thesis by auto
qed

lemma scan_bounded_total:
  assumes "wf_lists st" "cap st" "mask_bounded st" "set cs \<subseteq> set (points g)"
  shows "\<exists>st'. scan e g fg cs st = Some st' \<and> wf_lists st' \<and> cap st' \<and> mask_bounded st'"
  using assms
proof (induction cs arbitrary: st)
  case Nil
  then show ?case by simp
next
  case (Cons c cs)
  from scan_step_bounded[OF Cons.prems(1,3), where c = c and g = g and e = e and fg = fg] Cons.prems(2,4)
  obtain st1 where st1: "scan_step e g fg c st = Some st1" "wf_lists st1" "cap st1"
     "mask_bounded st1" by auto
  from Cons.IH[OF st1(2,3,4)] Cons.prems(4) st1(1) show ?case by auto
qed

lemma scan_bounded_partial:
  assumes "scan e g fg cs st = Some st'" "wf_lists st" "mask_bounded st" 
     "set cs \<subseteq> set (points g)"
  shows "wf_lists st' \<and> mask_bounded st'"
  using assms
proof (induction cs arbitrary: st)
  case Nil
  then show ?case by simp
next
  case (Cons c cs)
  from Cons.prems(1) have "scan_step e g fg c st \<noteq> None" by (auto split: option.splits)
  from scan_step_bounded[OF Cons.prems(2,3), where c = c and g = g and e = e and fg = fg] this Cons.prems(4)
  obtain st1 where st1: "scan_step e g fg c st = Some st1" "wf_lists st1" 
     "mask_bounded st1" by auto
  from Cons.IH[OF _ st1(2,3)] Cons.prems(1,4) st1(1) show ?case by auto
qed

lemma replicate_update_same: "(replicate n x)[k := x] = replicate n x"
proof (cases "k < n")
  case True
  then have "(replicate n x)[k := replicate n x ! k] = replicate n x" by (simp only: list_update_id)
  with True show ?thesis by simp
next
  case False
  then have "length (replicate n x) \<le> k" by simp
  then show ?thesis by (rule list_update_beyond)
qed

lemma init_VecList_Some:
  "init_VecList sz = Some ls \<longleftrightarrow>
     2 \<le> sz \<and> ls = \<lparr>parents = replicate sz 0, lengths = replicate sz 0,
                       j_vec = replicate sz 0, i_vec = replicate sz 0\<rparr>"
  by (auto simp: init_VecList_def Let_def vset_def replicate_update_same bind_eq_Some_conv)

lemma initial_Some:
  "initial sz m = Some st \<longleftrightarrow>
     2 \<le> sz \<and> st = \<lparr>run_number = 1,
                       lists = \<lparr>parents = replicate sz 0, lengths = replicate sz 0,
                                j_vec = replicate sz 0, i_vec = replicate sz 0\<rparr>,
                       max_items = int sz, mask_run = m\<rparr>"
  by (auto simp: initial_def init_VecList_Some bind_eq_Some_conv)

lemma initial_wf:
  assumes "initial sz m = Some st"
  shows "wf_lists st" "sized st" "run_number st = 1" "mask_run st = m" "max_items st = int sz"
        "parents (lists st) = replicate sz 0"
  using assms by (auto simp: initial_Some wf_lists_def sized_def downward_def)

lemma CC_startNewRun_res:
  assumes "CC_startNewRun i j p st = Some st'" "inv_res st" "0 \<le> p"
  shows "inv_res st' \<and> mask_run st' = mask_run st \<and> max_items st' = max_items st"
proof -
  from assms(2) have "2 \<le> run_number st + 1" by (simp add: inv_res_def)
  from reserved_update[OF _ this assms(3)] assms(1,2) show ?thesis
    by (auto simp: CC_startNewRun_def Let_def bind_eq_Some_conv vset_Some inv_res_def sized_def)
qed

lemma CC_continueRun_res:
  assumes "CC_continueRun i j st = Some st'" "inv_res st"
  shows "inv_res st' \<and> mask_run st' = mask_run st \<and> max_items st' = max_items st \<and>
         run_number st' = run_number st"
  using assms
  by (auto simp: CC_continueRun_def Let_def bind_eq_Some_conv vset_Some inv_res_def sized_def)

lemma startNewRun_res:
  assumes "startNewRun e i j p st = Some st'" "inv_res st" "0 \<le> p"
  shows "inv_res st' \<and> mask_run st' = mask_run st \<and> max_items st' = max_items st"
proof (cases e)
  case ConnectedComponents
  with assms CC_startNewRun_res show ?thesis by simp
next
  case SinkCC
  with assms(1) have "CC_startNewRun i j (if SinkCond st i j then 1 else p) st = Some st'"
    by (simp add: SinkCC_startNewRun_def)
  from CC_startNewRun_res[OF this assms(2)] assms(3) show ?thesis by simp
qed

lemma continueRun_res:
  assumes "continueRun e i j st = Some st'" "inv_res st"
  shows "inv_res st' \<and> mask_run st' = mask_run st \<and> max_items st' = max_items st"
proof (cases e)
  case ConnectedComponents
  with assms CC_continueRun_res[of i j st st'] show ?thesis by simp
next
  case SinkCC
  with assms(1) obtain st1 where st1: "CC_continueRun i j st = Some st1"
    and rest: "(if SinkCond st1 i j
          then do { p \<leftarrow> setRunSink (run_number st1) (parents (lists st1));
                    Some (st1\<lparr>lists := (lists st1)\<lparr>parents := p\<rparr>\<rparr>) }
          else Some st1) = Some st'"
    by (auto simp: SinkCC_continueRun_def bind_eq_Some_conv)
  from CC_continueRun_res[OF st1 assms(2)] have i1: "inv_res st1" "mask_run st1 = mask_run st"
    "max_items st1 = max_items st" by auto
  show ?thesis
  proof (cases "SinkCond st1 i j")
    case False
    with rest i1 show ?thesis by simp
  next
    case True
    with rest obtain p where p: "setRunSink (run_number st1) (parents (lists st1)) = Some p"
      and st': "st' = st1\<lparr>lists := (lists st1)\<lparr>parents := p\<rparr>\<rparr>"
      by (auto simp: bind_eq_Some_conv)
    from i1(1) have "reserved (parents (lists st1))" by (simp add: inv_res_def)
    from setRunSink_reserved[OF p this] have rp: "reserved p" .
    from p have "length p = length (parents (lists st1))"
      by (auto simp: setRunSink_def bind_eq_Some_conv vset_Some split: if_splits)
    with rp i1 st' show ?thesis by (simp add: inv_res_def sized_def)
  qed
qed

lemma run_union_length:
  "run_union ps a b = Some ps' \<Longrightarrow> length ps' = length ps"
  by (auto simp: run_union_def bind_eq_Some_conv vset_Some split: if_splits)

lemma mergeRuns_res:
  assumes "mergeRuns run s st = Some st'" "inv_res st" "0 < s" "0 < run"
  shows "inv_res st' \<and> mask_run st' = mask_run st \<and> max_items st' = max_items st \<and>
         run_number st' = run_number st"
proof -
  from assms(1) obtain p where p: "run_union (parents (lists st)) s run = Some p"
    and st': "st' = st\<lparr>lists := (lists st)\<lparr>parents := p\<rparr>\<rparr>"
    by (auto simp: mergeRuns_def bind_eq_Some_conv)
  from assms(2) have "reserved (parents (lists st))" by (simp add: inv_res_def)
  from run_union_reserved[OF p this assms(3,4)] run_union_length[OF p] assms(2) st'
  show ?thesis by (simp add: inv_res_def sized_def)
qed

lemma checkForegroundPixel_res:
  assumes "checkForegroundPixel e g i j st = Some st'" "inv_res st"
  shows "inv_res st' \<and> mask_run st' = mask_run st \<and> max_items st' = max_items st"
proof -
  let ?s = "mask_run st (i, j - 1)"
  let ?south = "\<not> j \<le> j_local_first g \<and> ?s > 0"
  let ?p = "if ?south then ?s else 0"
  let ?cont = "\<not> i \<le> i_local_first g \<and> mask_run st (i - 1, j) > 0"
  from assms(1) obtain st1 where
    st1: "(if ?cont then continueRun e i j st else startNewRun e i j ?p st) = Some st1"
    and rest: "(if ?south then mergeRuns (run_number st1) ?s st1 else Some st1) = Some st'"
    unfolding checkForegroundPixel_def Let_def bind_eq_Some_conv by blast
  have i1: "inv_res st1 \<and> mask_run st1 = mask_run st \<and> max_items st1 = max_items st"
  proof (cases ?cont)
    case True
    from st1 have "continueRun e i j st = Some st1" unfolding if_P[OF True] .
    from continueRun_res[OF this assms(2)] show ?thesis .
  next
    case False
    have p: "0 \<le> ?p" by simp
    from st1 have "startNewRun e i j ?p st = Some st1" unfolding if_not_P[OF False] .
    from startNewRun_res[OF this assms(2) p] show ?thesis .
  qed
  show ?thesis
  proof (cases ?south)
    case False
    from rest have "st1 = st'" unfolding if_not_P[OF False] by simp
    with i1 show ?thesis by simp
  next
    case True
    from rest have m: "mergeRuns (run_number st1) ?s st1 = Some st'" unfolding if_P[OF True] .
    from i1 have "0 < run_number st1" "inv_res st1" by (simp_all add: inv_res_def)
    moreover from True have "0 < ?s" by simp
    ultimately have "inv_res st' \<and> mask_run st' = mask_run st1 \<and> max_items st' = max_items st1 \<and>
         run_number st' = run_number st1"
      using mergeRuns_res[OF m] by blast
    with i1 show ?thesis by simp
  qed
qed

lemma reserved_resize:
  assumes "reserved ps" "length ps \<le> m"
  shows "reserved (resize ps m)"
proof -
  from assms(2) have rs: "resize ps m = ps @ replicate (m - length ps) 0" by (simp add: resize_def)
  from assms(1) have "2 \<le> length ps" by (simp add: reserved_def)
  then have "(ps @ replicate (m - length ps) 0) ! 0 = ps ! 0"
            "(ps @ replicate (m - length ps) 0) ! 1 = ps ! 1"
    by (auto simp: nth_append)
  with assms(1) show ?thesis unfolding rs reserved_def by auto
qed

lemma scan_step_res:
  assumes "scan_step e g fg c st = Some st'" "inv_res st" "c \<in> set (points g)"
  shows "inv_res st'"
proof (cases "fg (fst c) (snd c)")
  case False
  with assms show ?thesis by (auto simp: scan_step_def split: prod.splits)
next
  case True
  obtain i j where c: "c = (i, j)" by (cases c)
  from assms(3) have ym: "1 \<le> ym g" using owned_ym points_owned by blast
  from assms(1) True c have "(checkForegroundPixel e g i j st \<bind>
     (\<lambda>st1. let st2 = st1\<lparr>mask_run := (mask_run st1)((i, j) := run_number st1)\<rparr>
               in if run_number st2 + 1 \<ge> max_items st2
               then (let m = max_items st2 + ym g
                     in Some (st2\<lparr>max_items := m, lists := resizeLists (lists st2) m\<rparr>))
               else Some st2)) = Some st'"
    by (simp add: scan_step_def)
  then obtain st1 where st1: "checkForegroundPixel e g i j st = Some st1"
    and rest: "(let st2 = st1\<lparr>mask_run := (mask_run st1)((i, j) := run_number st1)\<rparr>
               in if run_number st2 + 1 \<ge> max_items st2
               then (let m = max_items st2 + ym g
                     in Some (st2\<lparr>max_items := m, lists := resizeLists (lists st2) m\<rparr>))
               else Some st2) = Some st'"
    unfolding bind_eq_Some_conv by blast
  from checkForegroundPixel_res[OF st1 assms(2)] have i1: "inv_res st1" by simp
  let ?st2 = "st1\<lparr>mask_run := (mask_run st1)((i, j) := run_number st1)\<rparr>"
  have i2: "inv_res ?st2" using i1 by (simp add: inv_res_def sized_def)
  show ?thesis
  proof (cases "run_number st1 + 1 \<ge> max_items st1")
    case False
    with rest i2 show ?thesis by (simp add: Let_def)
  next
    case ge: True
    let ?m = "max_items st1 + ym g"
    from ge rest have st': "st' = ?st2\<lparr>max_items := ?m, lists := resizeLists (lists ?st2) ?m\<rparr>"
      by (simp add: Let_def)
    from i1 have sz1: "sized st1" and r1: "reserved (parents (lists st1))"
      and n1: "1 \<le> run_number st1" by (auto simp: inv_res_def)
    from sz1 have len: "int (length (parents (lists st1))) = max_items st1" by (simp add: sized_def)
    with ym have "length (parents (lists st1)) \<le> nat ?m" "0 \<le> ?m" by linarith+
    from reserved_resize[OF r1 this(1)] sized_resize[OF this(2), of ?st2] n1 st'
    show ?thesis by (simp add: inv_res_def resizeLists_def)
  qed
qed

lemma scan_res:
  assumes "scan e g fg cs st = Some st'" "inv_res st" "set cs \<subseteq> set (points g)"
  shows "inv_res st'"
  using assms
proof (induction cs arbitrary: st)
  case Nil
  then show ?case by simp
next
  case (Cons c cs)
  from Cons.prems(1) obtain st1 where st1: "scan_step e g fg c st = Some st1"
     "scan e g fg cs st1 = Some st'" by (auto split: option.splits)
  from scan_step_res[OF st1(1) Cons.prems(2)] Cons.prems(3) have "inv_res st1" by simp
  from Cons.IH[OF st1(2) this] Cons.prems(3) show ?case by simp
qed

lemma initial_res: "initial sz m = Some st \<Longrightarrow> inv_res st"
  by (auto simp: initial_Some inv_res_def reserved_def sized_def)

lemma labelMask_lists:
  "labelMask st = Some st' \<Longrightarrow> lists st' = lists st \<and> run_number st' = run_number st \<and> max_items st' = max_items st"
  by (auto simp: labelMask_def bind_eq_Some_conv)

lemma boundary_loop_eq:
  "boundary_loop g env st = labelMask (st\<lparr>mask_run := updateGhosts g env (mask_run st)\<rparr>)"
  by (subst boundary_loop.simps) (simp add: updateRunsAtBoundaries_def Let_def)

lemma compute_runs_Some:
  "compute_runs e g fg env st = Some st' \<longleftrightarrow>
     (\<exists>st1 st2. scan e g fg (points g) st = Some st1 \<and> labelMask st1 = Some st2 \<and>
        labelMask (st2\<lparr>mask_run := updateGhosts g env (mask_run st2)\<rparr>) = Some st')"
  by (simp add: compute_runs_def boundary_loop_eq bind_eq_Some_conv)

lemma compute_runs_lists:
  assumes "compute_runs e g fg env st = Some st'"
  shows "\<exists>st1. scan e g fg (points g) st = Some st1 \<and> lists st' = lists st1 \<and>
          run_number st' = run_number st1 \<and> max_items st' = max_items st1"
proof -
  from assms obtain st1 st2 where s: "scan e g fg (points g) st = Some st1"
    "labelMask st1 = Some st2"
    "labelMask (st2\<lparr>mask_run := updateGhosts g env (mask_run st2)\<rparr>) = Some st'"
    by (auto simp: compute_runs_Some)
  from labelMask_lists[OF s(2)] labelMask_lists[OF s(3)] s(1) show ?thesis by simp
qed

lemma wf_lists_strictly_downward:
  assumes "wf_lists st" shows "strictly_downward st \<and> walks_terminate st"
proof -
  let ?ps = "parents (lists st)" and ?n = "run_number st"
  from assms have d: "downward ?ps ?n" by (simp add: wf_lists_def)
  then have n: "1 \<le> ?n" "?n < int (length ?ps)" by (auto simp: downward_def)
  from downward_reserved[OF d] n have "vget ?ps 0 = Some 0" "vget ?ps 1 = Some 0"
    by (auto simp: reserved_def vget_def)
  moreover have "\<exists>p. vget ?ps k = Some p \<and> 0 \<le> p \<and> p < k" if "k \<in> {2..?n}" for k
  proof -
    from that n have k: "0 \<le> k" "k < int (length ?ps)" "2 \<le> k" by auto
    from downwardD[OF d k(1,2)] k show ?thesis by (cases "?ps ! nat k = 0") (auto simp: vget_def)
  qed
  moreover have "trackParentRun k ?ps \<noteq> None" if "k \<in> {0..?n}" for k
    using track_downward[OF d, of k] that by auto
  ultimately show ?thesis by (simp add: strictly_downward_def walks_terminate_def)
qed

lemma label_runs_total:
  assumes "downward (parents L) n" "int (length (lengths L)) = int (length (parents L))"
    "int (length (j_vec L)) = int (length (parents L))" "int (length (i_vec L)) = int (length (parents L))"
    "\<forall>k\<in>set ks. 0 \<le> k \<and> k \<le> n"
  shows "label_runs L ks m \<noteq> None"
  using assms(5)
proof (induction ks arbitrary: m)
  case Nil
  then show ?case by simp
next
  case (Cons k ks)
  then have k: "0 \<le> k" "k \<le> n" by auto
  from assms(1) have "n < int (length (parents L))" by (simp add: downward_def)
  with k assms(2-4) have g: "vget (lengths L) k \<noteq> None" "vget (j_vec L) k \<noteq> None" "vget (i_vec L) k \<noteq> None"
    by (auto simp: vget_def)
  from track_downward[OF assms(1) k] g
  have "label_run (parents L) (lengths L) (j_vec L) (i_vec L) k m \<noteq> None"
    by (auto simp: label_run_def)
  with Cons show ?case by (auto split: option.splits)
qed

lemma labelMask_total:
  assumes "wf_lists st"
  shows "\<exists>st'. labelMask st = Some st' \<and> wf_lists st' \<and> lists st' = lists st"
proof -
  from assms have d: "downward (parents (lists st)) (run_number st)" and s: "sized st"
    by (auto simp: wf_lists_def)
  from s have "label_runs (lists st) [0..run_number st] (mask_run st) \<noteq> None"
    by (intro label_runs_total[OF d]) (auto simp: sized_def)
  then obtain m where "label_runs (lists st) [0..run_number st] (mask_run st) = Some m" by auto
  with assms show ?thesis by (simp add: labelMask_def wf_lists_def sized_def)
qed

lemma compute_runs_bounded_total:
  assumes "wf_lists st" "cap st" "mask_bounded st"
  shows "compute_runs e g fg env st \<noteq> None"
proof -
  from scan_bounded_total[OF assms, of "points g" g e fg]
  obtain st1 where st1: "scan e g fg (points g) st = Some st1" "wf_lists st1" by auto
  from labelMask_total[OF st1(2)] obtain st2 where st2: "labelMask st1 = Some st2" "wf_lists st2"
    by auto
  let ?st3 = "st2\<lparr>mask_run := updateGhosts g env (mask_run st2)\<rparr>"
  from st2(2) have "wf_lists ?st3" by (simp add: wf_lists_def sized_def)
  from labelMask_total[OF this] obtain st4 where "labelMask ?st3 = Some st4" by auto
  with st1 st2 have "compute_runs e g fg env st = Some st4" by (auto simp: compute_runs_Some)
  then show ?thesis by simp
qed

text \<open>
  Claim C9. In an invocation that starts from the initialised lists with every cell of the
  label raster holding 0 or 1, at every point of the scan and when \<^verbatim>\<open>compute_runs\<close> has
  returned, the entries 0 and 1 of \<open>parents\<close> are 0 and every run \<open>k \<ge> 2\<close> created so far
  has \<open>0 \<le> parents[k] < k\<close>; so the walk of \<^verbatim>\<open>trackParentRun\<close> returns for every run
  index in \<open>0..run_number\<close>. With room for at least one run in the lists
  (\<open>sz \<ge> 3\<close>) the whole invocation returns.
\<close>

theorem C9_parents_point_downward:
  assumes "\<forall>c. m c = 0 \<or> m c = 1" and "initial sz m = Some st0"
  shows "(scan e g fg (take n (points g)) st0 = Some st \<longrightarrow>
            strictly_downward st \<and> walks_terminate st) \<and>
         (compute_runs e g fg env st0 = Some st' \<longrightarrow>
            strictly_downward st' \<and> walks_terminate st') \<and>
         (3 \<le> sz \<longrightarrow> compute_runs e g fg env st0 \<noteq> None)"
proof -
  from initial_wf[OF assms(2)] have wf0: "wf_lists st0" and rn0: "run_number st0 = 1"
    and m0: "mask_run st0 = m" and mx: "max_items st0 = int sz" by auto
  from assms(1) m0 rn0 have mb0: "mask_bounded st0"
    unfolding mask_bounded_def by (metis zero_le_one order_refl)
  have A: "strictly_downward st \<and> walks_terminate st"
    if "scan e g fg (take n (points g)) st0 = Some st"
  proof -
    have "set (take n (points g)) \<subseteq> set (points g)" by (rule set_take_subset)
    from scan_bounded_partial[OF that wf0 mb0 this] show ?thesis
      by (simp add: wf_lists_strictly_downward)
  qed
  have B: "strictly_downward st' \<and> walks_terminate st'"
    if "compute_runs e g fg env st0 = Some st'"
  proof -
    from compute_runs_lists[OF that] obtain st1 where st1: "scan e g fg (points g) st0 = Some st1"
      "lists st' = lists st1" "run_number st' = run_number st1" by auto
    from scan_bounded_partial[OF st1(1) wf0 mb0] have "wf_lists st1" by simp
    from wf_lists_strictly_downward[OF this] st1(2,3) show ?thesis
      by (simp add: strictly_downward_def walks_terminate_def)
  qed
  have C: "compute_runs e g fg env st0 \<noteq> None" if "3 \<le> sz"
  proof -
    from that rn0 mx have "cap st0" by (simp add: cap_def)
    from compute_runs_bounded_total[OF wf0 this mb0] show ?thesis .
  qed
  from A B C show ?thesis by blast
qed

lemma the_Some: "\<not> Option.is_none x \<Longrightarrow> x = Some (the x)"
  by (simp add: Option.is_none_def)

theorem C9_witness:
  "strictly_downward (the (scan SinkCC grid3 fg_hook (take 7 (points grid3)) (the (initial 4 sink_corner)))) \<and>
   walks_terminate (the (scan SinkCC grid3 fg_hook (take 7 (points grid3)) (the (initial 4 sink_corner)))) \<and>
   strictly_downward (the (compute_runs SinkCC grid3 fg_hook no_sink (the (initial 4 sink_corner)))) \<and>
   walks_terminate (the (compute_runs SinkCC grid3 fg_hook no_sink (the (initial 4 sink_corner)))) \<and>
   compute_runs SinkCC grid3 fg_hook no_sink (the (initial 4 sink_corner)) \<noteq> None"
proof -
  have m: "\<forall>c. sink_corner c = 0 \<or> sink_corner c = 1"
    by (simp add: sink_corner_def no_sink_def)
  have i: "initial 4 sink_corner = Some (the (initial 4 sink_corner))"
    by (rule the_Some) code_simp
  have s: "scan SinkCC grid3 fg_hook (take 7 (points grid3)) (the (initial 4 sink_corner)) =
           Some (the (scan SinkCC grid3 fg_hook (take 7 (points grid3)) (the (initial 4 sink_corner))))"
    by (rule the_Some) code_simp
  have c: "compute_runs SinkCC grid3 fg_hook no_sink (the (initial 4 sink_corner)) =
           Some (the (compute_runs SinkCC grid3 fg_hook no_sink (the (initial 4 sink_corner))))"
    by (rule the_Some) code_simp
  from C9_parents_point_downward[OF m i, where e = SinkCC and g = grid3 and fg = fg_hook
      and n = 7 and env = no_sink] s c
  show ?thesis by simp
qed

lemma inv_res_vget:
  assumes "inv_res st"
  shows "vget (parents (lists st)) 0 = Some 0 \<and> vget (parents (lists st)) 1 = Some 0"
  using assms by (auto simp: inv_res_def reserved_def vget_def)

text \<open>
  Claim C5, as amended. At every point of an invocation (after every prefix of the scan, and
  when \<^verbatim>\<open>compute_runs\<close> has returned), whatever the raster held before, the reserved entries
  of \<open>parents\<close> are both 0: \<open>parents[0] = 0\<close> and \<open>parents[1] = 0\<close>. An entry 0 is how the
  forest marks a root, the sink root included; no operation writes either entry.
\<close>

theorem C5_reserved_roots_have_parent_zero:
  assumes "initial sz m = Some st0"
  shows "(scan e g fg (take n (points g)) st0 = Some st \<longrightarrow>
            vget (parents (lists st)) 0 = Some 0 \<and> vget (parents (lists st)) 1 = Some 0) \<and>
         (compute_runs e g fg env st0 = Some st' \<longrightarrow>
            vget (parents (lists st')) 0 = Some 0 \<and> vget (parents (lists st')) 1 = Some 0)"
proof -
  from initial_res[OF assms] have i0: "inv_res st0" .
  have A: "vget (parents (lists st)) 0 = Some 0 \<and> vget (parents (lists st)) 1 = Some 0"
    if "scan e g fg (take n (points g)) st0 = Some st"
  proof -
    have "set (take n (points g)) \<subseteq> set (points g)" by (rule set_take_subset)
    from scan_res[OF that i0 this] show ?thesis by (rule inv_res_vget)
  qed
  have B: "vget (parents (lists st')) 0 = Some 0 \<and> vget (parents (lists st')) 1 = Some 0"
    if "compute_runs e g fg env st0 = Some st'"
  proof -
    from compute_runs_lists[OF that] obtain st1 where st1: "scan e g fg (points g) st0 = Some st1"
      "lists st' = lists st1" by auto
    from scan_res[OF st1(1) i0] have "inv_res st1" by simp
    from inv_res_vget[OF this] st1(2) show ?thesis by simp
  qed
  from A B show ?thesis by blast
qed

theorem C5_witness:
  "vget (parents (lists (the (scan SinkCC grid_column fg_upper (take 2 (points grid_column))
       (the (initial 4 stale_two)))))) 1 = Some 0 \<and>
   vget (parents (lists (the (compute_runs SinkCC grid3 fg_hook no_sink
       (the (initial 4 sink_corner)))))) 1 = Some 0"
proof -
  have i1: "initial 4 stale_two = Some (the (initial 4 stale_two))"
    by (rule the_Some) code_simp
  have i2: "initial 4 sink_corner = Some (the (initial 4 sink_corner))"
    by (rule the_Some) code_simp
  have s: "scan SinkCC grid_column fg_upper (take 2 (points grid_column)) (the (initial 4 stale_two)) =
     Some (the (scan SinkCC grid_column fg_upper (take 2 (points grid_column)) (the (initial 4 stale_two))))"
    by (rule the_Some) code_simp
  have c: "compute_runs SinkCC grid3 fg_hook no_sink (the (initial 4 sink_corner)) =
           Some (the (compute_runs SinkCC grid3 fg_hook no_sink (the (initial 4 sink_corner))))"
    by (rule the_Some) code_simp
  from C5_reserved_roots_have_parent_zero[OF i1, where e = SinkCC and g = grid_column
      and fg = fg_upper and n = 2] s
    C5_reserved_roots_have_parent_zero[OF i2, where e = SinkCC and g = grid3
      and fg = fg_hook and env = no_sink] c
  show ?thesis by simp
qed

text \<open>
  Claim C5 as stated fails: after an invocation under the sink policy the entry \<open>parents[1]\<close>
  is 0, not 1.
\<close>

theorem C5_counterexample:
  "parent_at (compute_runs SinkCC grid3 fg_hook no_sink (the (initial 4 sink_corner))) 1 = Some 0"
  by code_simp

lemma track_link_sink:
  assumes "trackParentRun k ps = Some r"
  shows "vget ps r = Some 0 \<and>
         (r \<noteq> 1 \<longrightarrow> vget ps 1 = Some 0 \<longrightarrow> trackParentRun k (ps[nat r := 1]) = Some 1)"
proof (rule trackParentRun.raw_induct[where P = "\<lambda>k ps r. vget ps r = Some 0 \<and>
         (r \<noteq> 1 \<longrightarrow> vget ps 1 = Some 0 \<longrightarrow> trackParentRun k (ps[nat r := 1]) = Some 1)", OF _ assms])
  fix f k ps r
  assume IH: "\<And>k ps r. f k ps = Some r \<Longrightarrow> vget ps r = Some 0 \<and>
         (r \<noteq> 1 \<longrightarrow> vget ps 1 = Some 0 \<longrightarrow> trackParentRun k (ps[nat r := 1]) = Some 1)"
    and step: "vget ps k \<bind> (\<lambda>p. if p \<noteq> 0 then f p ps else Some k) = Some r"
  from step obtain p where p: "vget ps k = Some p"
    and rest: "(if p \<noteq> 0 then f p ps else Some k) = Some r"
    unfolding bind_eq_Some_conv by blast
  show "vget ps r = Some 0 \<and>
         (r \<noteq> 1 \<longrightarrow> vget ps 1 = Some 0 \<longrightarrow> trackParentRun k (ps[nat r := 1]) = Some 1)"
  proof (cases "p = 0")
    case True
    with rest have kr: "k = r" by simp
    with p True have r0: "vget ps r = Some 0" by simp
    have "trackParentRun r (ps[nat r := 1]) = Some 1" if "r \<noteq> 1" "vget ps 1 = Some 0"
    proof -
      from r0 have inr: "0 \<le> r" "r < int (length ps)" by (auto simp: vget_Some)
      then have a: "vget (ps[nat r := 1]) r = Some 1" by (simp add: vget_def)
      from that inr have "nat r \<noteq> 1" by auto
      with that(2) have b: "vget (ps[nat r := 1]) 1 = Some 0"
        by (auto simp: vget_def split: if_splits)
      have "trackParentRun 1 (ps[nat r := 1]) = Some 1"
        by (subst trackParentRun.simps) (simp add: b)
      then show ?thesis by (subst trackParentRun.simps) (simp add: a)
    qed
    with r0 kr show ?thesis by simp
  next
    case False
    with rest have "f p ps = Some r" by simp
    from IH[OF this] have r0: "vget ps r = Some 0"
      and t: "r \<noteq> 1 \<longrightarrow> vget ps 1 = Some 0 \<longrightarrow> trackParentRun p (ps[nat r := 1]) = Some 1" by auto
    from p r0 False have "nat k \<noteq> nat r" "0 \<le> k" "k < int (length ps)" by (auto simp: vget_Some)
    with p have a: "vget (ps[nat r := 1]) k = Some p" by (auto simp: vget_def)
    have "trackParentRun k (ps[nat r := 1]) = trackParentRun p (ps[nat r := 1])"
      by (subst trackParentRun.simps) (simp add: a False)
    with t r0 show ?thesis by simp
  qed
qed


lemma SinkCC_continueRun_Some:
  assumes "SinkCC_continueRun i j st = Some st'" "SinkCond st i j"
  shows "run_number st' = run_number st \<and>
         setRunSink (run_number st) (parents (lists st)) = Some (parents (lists st'))"
proof -
  from assms(1) obtain st1 where st1: "CC_continueRun i j st = Some st1"
    and rest: "(if SinkCond st1 i j
          then do { p \<leftarrow> setRunSink (run_number st1) (parents (lists st1));
                    Some (st1\<lparr>lists := (lists st1)\<lparr>parents := p\<rparr>\<rparr>) }
          else Some st1) = Some st'"
    unfolding SinkCC_continueRun_def bind_eq_Some_conv by blast
  from st1 have e: "run_number st1 = run_number st" "parents (lists st1) = parents (lists st)"
    "mask_run st1 = mask_run st"
    by (auto simp: CC_continueRun_def Let_def bind_eq_Some_conv)
  with assms(2) have "SinkCond st1 i j" by (simp add: SinkCond_def)
  with rest e show ?thesis by (auto simp: bind_eq_Some_conv)
qed

lemma CC_startNewRun_Some:
  assumes "CC_startNewRun i j p st = Some st'"
  shows "run_number st' = run_number st + 1 \<and> mask_run st' = mask_run st \<and>
         max_items st' = max_items st \<and>
         lengths (lists st') = (lengths (lists st))[nat (run_number st + 1) := 1] \<and>
         i_vec (lists st') = (i_vec (lists st))[nat (run_number st + 1) := i] \<and>
         j_vec (lists st') = (j_vec (lists st))[nat (run_number st + 1) := j] \<and>
         parents (lists st') = (parents (lists st))[nat (run_number st + 1) := p] \<and>
         0 \<le> run_number st + 1 \<and> run_number st + 1 < int (length (parents (lists st)))"
  using assms
  by (auto simp: CC_startNewRun_def Let_def bind_eq_Some_conv vset_Some)

lemma CC_continueRun_Some:
  assumes "CC_continueRun i j st = Some st'"
  shows "run_number st' = run_number st \<and> mask_run st' = mask_run st \<and>
         max_items st' = max_items st \<and>
         lengths (lists st') = (lengths (lists st))[nat (run_number st) :=
                                  lengths (lists st) ! nat (run_number st) + 1] \<and>
         i_vec (lists st') = i_vec (lists st) \<and> j_vec (lists st') = j_vec (lists st) \<and>
         parents (lists st') = parents (lists st)"
  using assms
  by (auto simp: CC_continueRun_def Let_def bind_eq_Some_conv vset_Some vget_Some)

lemma mergeRuns_Some:
  assumes "mergeRuns run s st = Some st'"
  shows "run_number st' = run_number st \<and> mask_run st' = mask_run st \<and>
         max_items st' = max_items st \<and> lengths (lists st') = lengths (lists st) \<and>
         i_vec (lists st') = i_vec (lists st) \<and> j_vec (lists st') = j_vec (lists st) \<and>
         run_union (parents (lists st)) s run = Some (parents (lists st'))"
  using assms by (auto simp: mergeRuns_def bind_eq_Some_conv)

lemma parent_rel_link:
  assumes "vget ps r1 = Some 0"
  shows "parent_rel (ps[nat r1 := r2]) \<subseteq> insert (r1, r2) (parent_rel ps)"
proof
  fix e assume e: "e \<in> parent_rel (ps[nat r1 := r2])"
  obtain k p where kp: "e = (k, p)" by (cases e)
  with e have g: "vget (ps[nat r1 := r2]) k = Some p" "p \<noteq> 0" by (auto simp: parent_rel_def)
  then have k: "0 \<le> k" "k < int (length ps)" by (auto simp: vget_Some)
  from assms have r: "0 \<le> r1" "r1 < int (length ps)" by (auto simp: vget_Some)
  show "e \<in> insert (r1, r2) (parent_rel ps)"
  proof (cases "k = r1")
    case True
    with g r have "p = r2" by (auto simp: vget_Some)
    with True kp show ?thesis by simp
  next
    case False
    with k r have "nat k \<noteq> nat r1" by auto
    with g k have "vget ps k = Some p" by (auto simp: vget_Some)
    with g(2) kp show ?thesis by (simp add: parent_rel_def)
  qed
qed

lemma acyclic_link:
  assumes "acyclic (parent_rel ps)" "vget ps r1 = Some 0" "vget ps r2 = Some 0" "r1 \<noteq> r2"
  shows "acyclic (parent_rel (ps[nat r1 := r2]))"
proof -
  have "(r2, r1) \<notin> (parent_rel ps)\<^sup>*"
  proof
    assume "(r2, r1) \<in> (parent_rel ps)\<^sup>*"
    then show False
    proof (cases rule: converse_rtranclE)
      case base
      with assms(4) show False by simp
    next
      case (step z)
      with assms(3) show False by (auto simp: parent_rel_def)
    qed
  qed
  with assms(1) have "acyclic (insert (r1, r2) (parent_rel ps))" by (simp add: acyclic_insert)
  from acyclic_subset[OF this parent_rel_link[OF assms(2)]] show ?thesis .
qed

lemma run_union_acyclic:
  assumes "run_union ps a b = Some ps'" "acyclic (parent_rel ps)"
  shows "acyclic (parent_rel ps')"
proof (cases "ps' = ps")
  case True with assms show ?thesis by simp
next
  case False
  with assms(1) obtain r1 r2 where r: "trackParentRun a ps = Some r1" "trackParentRun b ps = Some r2"
    and upd: "ps' = (if r1 > r2 then ps[nat r1 := r2] else ps[nat r2 := r1])" "r1 \<noteq> r2"
    unfolding run_union_def 
    by (auto simp: bind_eq_Some_conv vset_Some split: if_splits)
  from track_root[OF r(1)] track_root[OF r(2)] have z: "vget ps r1 = Some 0" "vget ps r2 = Some 0" .
  from acyclic_link[OF assms(2) z upd(2)] acyclic_link[OF assms(2) z(2,1)] upd
  show ?thesis by auto
qed

lemma setRunSink_acyclic:
  assumes "setRunSink run ps = Some ps'" "acyclic (parent_rel ps)" "vget ps 1 = Some 0"
  shows "acyclic (parent_rel ps')"
proof (cases "ps' = ps")
  case True with assms show ?thesis by simp
next
  case False
  with assms(1) obtain r where r: "trackParentRun run ps = Some r" "r \<noteq> 1" "ps' = ps[nat r := 1]"
    unfolding setRunSink_def by (auto simp: bind_eq_Some_conv vset_Some split: if_splits)
  from acyclic_link[OF assms(2) track_root[OF r(1)] assms(3) r(2)] r(3) show ?thesis by simp
qed

lemma downward_acyclic:
  assumes "downward ps n"
  shows "acyclic (parent_rel ps)"
proof -
  have "parent_rel ps \<subseteq> (int_ge_less_than 0)\<inverse>"
  proof
    fix e assume e: "e \<in> parent_rel ps"
    obtain k p where kp: "e = (k, p)" by (cases e)
    with e have g: "vget ps k = Some p" "p \<noteq> 0" by (auto simp: parent_rel_def)
    then have k: "0 \<le> k" "k < int (length ps)" "ps ! nat k = p" by (auto simp: vget_Some)
    from downwardD[OF assms k(1,2)] k(3) g(2) have "0 \<le> p" "p < k" by auto
    with kp show "e \<in> (int_ge_less_than 0)\<inverse>" by (simp add: int_ge_less_than_def)
  qed
  moreover have "acyclic ((int_ge_less_than 0)\<inverse>)"
    using wf_int_ge_less_than[of 0] by (simp add: wf_acyclic)
  ultimately show ?thesis by (rule acyclic_subset[rotated])
qed

lemma track_zero: "vget ps 0 = Some 0 \<Longrightarrow> trackParentRun 0 ps = Some 0"
  by (subst trackParentRun.simps) simp

lemma track_step:
  assumes "vget ps k = Some p" "p \<noteq> 0"
  shows "trackParentRun k ps = trackParentRun p ps"
  by (subst trackParentRun.simps) (simp add: assms)

lemma track_root_self:
  assumes "vget ps k = Some 0"
  shows "trackParentRun k ps = Some k"
  by (subst trackParentRun.simps) (simp add: assms)

lemma run_union_roots:
  assumes z: "vget ps 0 = Some 0"
    and r1: "trackParentRun run1 ps = Some r1" and r2: "trackParentRun run2 ps = Some r2"
  shows "run_union ps run1 run2 =
           Some (if r2 < r1 then ps[nat r1 := r2] else if r1 < r2 then ps[nat r2 := r1] else ps)"
proof -
  from track_start[OF r1] obtain p1 where p1: "vget ps run1 = Some p1" by auto
  from track_start[OF r2] obtain p2 where p2: "vget ps run2 = Some p2" by auto
  from track_root[OF r1] track_root[OF r2] have rz: "vget ps r1 = Some 0" "vget ps r2 = Some 0" .
  then have upd: "ps[nat r1 := 0] = ps" "ps[nat r2 := 0] = ps"
    by (auto simp: vget_Some list_update_same_conv)
  have ret: "(if r2 < r1 then ps[nat r1 := r2] else if r1 < r2 then ps[nat r2 := r1] else ps) = ps"
    if "p1 = run2 \<or> p2 = run1"
    using that
  proof
    assume e: "p1 = run2"
    show ?thesis
    proof (cases "run2 = 0")
      case True
      with r2 track_zero[OF z] have "r2 = 0" by simp
      moreover from True e p1 have "trackParentRun run1 ps = Some run1" by (simp add: track_root_self)
      with r1 have "r1 = run1" by simp
      moreover from p1 have "0 \<le> run1" by (simp add: vget_Some)
      ultimately show ?thesis using upd by auto
    next
      case False
      with track_step[OF p1] e r1 r2 have "r1 = r2" by simp
      then show ?thesis by simp
    qed
  next
    assume e: "p2 = run1"
    show ?thesis
    proof (cases "run1 = 0")
      case True
      with r1 track_zero[OF z] have "r1 = 0" by simp
      moreover from True e p2 have "trackParentRun run2 ps = Some run2" by (simp add: track_root_self)
      with r2 have "r2 = run2" by simp
      moreover from p2 have "0 \<le> run2" by (simp add: vget_Some)
      ultimately show ?thesis using upd by auto
    next
      case False
      with track_step[OF p2] e r1 r2 have "r1 = r2" by simp
      then show ?thesis by simp
    qed
  qed
  from rz have inr: "0 \<le> r1" "r1 < int (length ps)" "0 \<le> r2" "r2 < int (length ps)"
    by (auto simp: vget_Some)
  show ?thesis
  proof (cases "p1 = run2 \<or> p2 = run1")
    case True
    then have "run_union ps run1 run2 = Some ps"
      by (auto simp: run_union_def p1 p2)
    with ret[OF True] show ?thesis by simp
  next
    case False
    with inr show ?thesis
      by (simp add: run_union_def p1 p2 r1 r2 vset_def)
  qed
qed

text \<open>
  Claim C2 describes the margin comparison and the repetition of the reconciliation round;
  the code does neither. On the eastern process of the two-process example, after the scan and
  the first label resolution the margin cell \<open>(2, 0)\<close> carries the label 2 and the exchange
  delivers the sink label 1 at its west ghost neighbour \<open>(1, 0)\<close>. \<^verbatim>\<open>updateRunsAtBoundaries\<close>
  returns \<^verbatim>\<open>false\<close> with the lists untouched, so the loop of \<^verbatim>\<open>compute_runs\<close> ends after
  this one round and the cells keep the label 2. The margin loop behind the
  \<^verbatim>\<open>return false\<close> would have repointed run 2 to the sink root and reported a change.
\<close>

theorem C2_reconciliation_returns_before_the_margin_loop:
  "map_option (\<lambda>(st, changed). (changed, parents (lists st), mask_run st (1, 0), mask_run st (2, 0)))
     (updateRunsAtBoundaries grid_east west_labels
        (the (before_reconciliation SinkCC grid_east fg_all (the (initial 4 no_sink)))))
     = Some (False, [0, 0, 0, 0], 1, 2) \<and>
   map_option (\<lambda>(st, changed). (changed, parents (lists st)))
     (margin_loop grid_east (points grid_east)
        (exchanged grid_east west_labels
           (the (before_reconciliation SinkCC grid_east fg_all (the (initial 4 no_sink)))), False))
     = Some (True, [0, 0, 1, 0]) \<and>
   map_option (\<lambda>st. map (mask_run st) [(1, 0), (2, 0), (3, 0)])
     (compute_runs SinkCC grid_east fg_all west_labels (the (initial 4 no_sink)))
     = Some [1, 2, 2]"
  by code_simp

text \<open>
  Claim C7 describes the repointing of a margin run whose ghost neighbour carries the sink
  label; the code never does it. On the northern process of the two-process example the
  margin cell \<open>(0, 1)\<close> carries the label 2 and its south ghost neighbour \<open>(0, 0)\<close> the sink
  label 1. \<^verbatim>\<open>treatInnerMargin\<close>, called with the south flag set, repoints run 2 to the sink
  root and flags the change, as the claim says. But \<^verbatim>\<open>compute_runs\<close> leaves the cell with
  label 2 and \<open>parents[2] = 0\<close>, since \<^verbatim>\<open>updateRunsAtBoundaries\<close> returns before its margin
  loop; and the call in that loop passes the west flag in the place of the south flag, so
  even the loop would leave run 2 alone.
\<close>

theorem C7_margin_run_is_not_repointed:
  "map (mask_run (exchanged grid_north south_labels
          (the (before_reconciliation SinkCC grid_north fg_all (the (initial 4 no_sink))))))
     [(0, 0), (0, 1)] = [1, 2] \<and>
   map_option (\<lambda>(st, changed). (changed, parents (lists st)))
     (treatInnerMargin 0 1 False False True False
        (exchanged grid_north south_labels
           (the (before_reconciliation SinkCC grid_north fg_all (the (initial 4 no_sink)))), False))
     = Some (True, [0, 0, 1, 0]) \<and>
   map_option (\<lambda>st. (mask_run st (0, 1), parents (lists st)))
     (compute_runs SinkCC grid_north fg_all south_labels (the (initial 4 no_sink)))
     = Some (2, [0, 0, 0, 0]) \<and>
   map_option (\<lambda>(st, changed). (changed, parents (lists st)))
     (margin_step grid_north (0, 1)
        (exchanged grid_north south_labels
           (the (before_reconciliation SinkCC grid_north fg_all (the (initial 4 no_sink)))), False))
     = Some (False, [0, 0, 0, 0])"
  by code_simp

lemma sorted_wrt_row:
  "sorted_wrt before (map (\<lambda>i. (i, j)) [a..b])"
proof -
  have "sorted_wrt (<) [a..b]" by (simp add: strict_sorted_iff)
  then show ?thesis
    by (simp add: sorted_wrt_map before_def)
qed

lemma sorted_wrt_rows:
  assumes "sorted_wrt (<) js"
  shows "sorted_wrt before (concat (map (\<lambda>j. map (\<lambda>i. (i, j)) [a..b]) js))"
  using assms
proof (induction js)
  case Nil
  then show ?case by simp
next
  case (Cons j js)
  then have lt: "\<forall>j'\<in>set js. j < j'" and srt: "sorted_wrt (<) js" by auto
  from lt have cross: "\<forall>x\<in>set (map (\<lambda>i. (i, j)) [a..b]).
         \<forall>y\<in>set (concat (map (\<lambda>j. map (\<lambda>i. (i, j)) [a..b]) js)). before x y"
    by (auto simp: before_def)
  from Cons.IH[OF srt] sorted_wrt_row[of j a b] cross show ?case
    by (simp add: sorted_wrt_append)
qed

lemma sorted_points: "sorted_wrt before (points g)"
proof -
  have "sorted_wrt (<) [j_local_first g..j_local_last g]" by (simp add: strict_sorted_iff)
  from sorted_wrt_rows[OF this] show ?thesis by (simp add: points_def)
qed

lemma set_points: "set (points g) = {c. owned g c}"
  using points_owned owned_points by blast

text \<open>What the position of a cell in the scan order says about its neighbours.\<close>

lemma points_split:
  assumes "points g = done @ c # rest"
  shows "owned g c" "c \<notin> set done" "\<forall>d\<in>set done. before d c" "\<forall>d\<in>set rest. before c d"
    "set done \<subseteq> {d. owned g d}"
proof -
  from sorted_points[of g] assms have s: "sorted_wrt before (done @ c # rest)" by simp
  then show b: "\<forall>d\<in>set done. before d c" and "\<forall>d\<in>set rest. before c d"
    by (auto simp: sorted_wrt_append)
  from b show "c \<notin> set done" by (auto simp: before_def)
  from set_points[of g] assms show "owned g c" "set done \<subseteq> {d. owned g d}" by auto
qed

lemma points_south:
  assumes "points g = done @ c # rest" "j_local_first g < snd c"
  shows "(fst c, snd c - 1) \<in> set done"
proof -
  note p = points_split[OF assms(1)]
  let ?s = "(fst c, snd c - 1)"
  from p(1) assms(2) have "owned g ?s" by (auto simp: owned_def)
  with set_points[of g] assms(1) have "?s \<in> set done \<or> ?s = c \<or> ?s \<in> set rest" by auto
  moreover have "?s \<noteq> c" by (cases c) auto
  moreover have "?s \<notin> set rest" using p(4) by (auto simp: before_def)
  ultimately show ?thesis by blast
qed

lemma points_west:
  assumes "points g = done @ c # rest" "i_local_first g < fst c"
  shows "done \<noteq> [] \<and> last done = (fst c - 1, snd c)"
proof -
  note p = points_split[OF assms(1)]
  let ?w = "(fst c - 1, snd c)"
  from p(1) assms(2) have "owned g ?w" by (auto simp: owned_def)
  with set_points[of g] assms(1) have "?w \<in> set done \<or> ?w = c \<or> ?w \<in> set rest" by auto
  moreover have "?w \<noteq> c" by (cases c) auto
  moreover have "?w \<notin> set rest" using p(4) by (auto simp: before_def)
  ultimately have w: "?w \<in> set done" by blast
  then have ne: "done \<noteq> []" by auto
  then obtain d' x where d: "done = d' @ [x]" by (metis rev_exhaust)
  have "x = ?w"
  proof (rule ccontr)
    assume "x \<noteq> ?w"
    with w d have "?w \<in> set d'" by auto
    moreover from sorted_points[of g] assms(1) d have "sorted_wrt before (d' @ [x])"
      by (simp add: sorted_wrt_append)
    ultimately have "before ?w x" by (auto simp: sorted_wrt_append)
    moreover from p(3) d have "before x c" by simp
    ultimately show False by (auto simp: before_def)
  qed
  with d ne show ?thesis by simp
qed

lemma points_later:
  assumes "points g = done @ c # rest"
  shows "(fst c + 1, snd c) \<notin> set done" "(fst c, snd c + 1) \<notin> set done"
  using points_split(3)[OF assms] by (auto simp: before_def)

lemma startNewRun_effect:
  assumes "startNewRun e i j p st = Some st'"
  shows "CC_startNewRun i j (if sink_here e st i j then 1 else p) st = Some st'"
  using assms by (cases e) (auto simp: SinkCC_startNewRun_def sink_here_def)

lemma continueRun_effect:
  assumes "continueRun e i j st = Some st'"
  shows "run_number st' = run_number st \<and> mask_run st' = mask_run st \<and>
         max_items st' = max_items st \<and>
         lengths (lists st') = (lengths (lists st))[nat (run_number st) :=
                                  lengths (lists st) ! nat (run_number st) + 1] \<and>
         i_vec (lists st') = i_vec (lists st) \<and> j_vec (lists st') = j_vec (lists st) \<and>
         0 \<le> run_number st \<and> run_number st < int (length (lengths (lists st))) \<and>
         (if sink_here e st i j
          then setRunSink (run_number st) (parents (lists st)) = Some (parents (lists st'))
          else parents (lists st') = parents (lists st))"
proof (cases e)
  case ConnectedComponents
  with assms have c: "CC_continueRun i j st = Some st'" by simp
  then have "0 \<le> run_number st \<and> run_number st < int (length (lengths (lists st)))"
    by (auto simp: CC_continueRun_def Let_def bind_eq_Some_conv vget_Some)
  with CC_continueRun_Some[OF c] ConnectedComponents show ?thesis by (simp add: sink_here_def)
next
  case SinkCC
  with assms have "SinkCC_continueRun i j st = Some st'" by simp
  then obtain st1 where st1: "CC_continueRun i j st = Some st1"
    and rest: "(if SinkCond st1 i j
          then do { p \<leftarrow> setRunSink (run_number st1) (parents (lists st1));
                    Some (st1\<lparr>lists := (lists st1)\<lparr>parents := p\<rparr>\<rparr>) }
          else Some st1) = Some st'"
    unfolding SinkCC_continueRun_def bind_eq_Some_conv by blast
  from st1 have r: "0 \<le> run_number st \<and> run_number st < int (length (lengths (lists st)))"
    by (auto simp: CC_continueRun_def Let_def bind_eq_Some_conv vget_Some)
  note a = CC_continueRun_Some[OF st1]
  then have sc: "SinkCond st1 i j = SinkCond st i j" by (simp add: SinkCond_def)
  show ?thesis
  proof (cases "SinkCond st i j")
    case True
    with rest sc obtain p where "setRunSink (run_number st1) (parents (lists st1)) = Some p"
      "st' = st1\<lparr>lists := (lists st1)\<lparr>parents := p\<rparr>\<rparr>"
      by (auto simp: bind_eq_Some_conv)
    with a r True SinkCC show ?thesis by (simp add: sink_here_def)
  next
    case False
    with rest sc have "st' = st1" by simp
    with a r False SinkCC show ?thesis by (simp add: sink_here_def)
  qed
qed

lemma checkForegroundPixel_effect:
  assumes "checkForegroundPixel e g i j st = Some st'"
  shows "mask_run st' = mask_run st \<and> max_items st' = max_items st \<and>
    (\<exists>ps1.
      (if west_fg g st i j
       then run_number st' = run_number st \<and>
            lengths (lists st') = (lengths (lists st))[nat (run_number st) :=
                                     lengths (lists st) ! nat (run_number st) + 1] \<and>
            i_vec (lists st') = i_vec (lists st) \<and> j_vec (lists st') = j_vec (lists st) \<and>
            0 \<le> run_number st \<and> run_number st < int (length (lengths (lists st))) \<and>
            (if sink_here e st i j
             then setRunSink (run_number st) (parents (lists st)) = Some ps1
             else ps1 = parents (lists st))
       else run_number st' = run_number st + 1 \<and>
            0 \<le> run_number st + 1 \<and> run_number st + 1 < int (length (parents (lists st))) \<and>
            lengths (lists st') = (lengths (lists st))[nat (run_number st + 1) := 1] \<and>
            i_vec (lists st') = (i_vec (lists st))[nat (run_number st + 1) := i] \<and>
            j_vec (lists st') = (j_vec (lists st))[nat (run_number st + 1) := j] \<and>
            ps1 = (parents (lists st))[nat (run_number st + 1) :=
                     (if sink_here e st i j then 1
                      else if south_fg g st i j then mask_run st (i, j - 1) else 0)]) \<and>
      (if south_fg g st i j
       then run_union ps1 (mask_run st (i, j - 1)) (run_number st') = Some (parents (lists st'))
       else parents (lists st') = ps1))"
proof -
  let ?s = "mask_run st (i, j - 1)"
  let ?south = "\<not> j \<le> j_local_first g \<and> ?s > 0"
  let ?p = "if ?south then ?s else 0"
  let ?cont = "\<not> i \<le> i_local_first g \<and> mask_run st (i - 1, j) > 0"
  from assms obtain st1 where
    st1: "(if ?cont then continueRun e i j st else startNewRun e i j ?p st) = Some st1"
    and rest: "(if ?south then mergeRuns (run_number st1) ?s st1 else Some st1) = Some st'"
    unfolding checkForegroundPixel_def Let_def bind_eq_Some_conv by blast
  have c: "west_fg g st i j = ?cont" and so: "south_fg g st i j = ?south"
    by (auto simp: west_fg_def south_fg_def)
  have A: "mask_run st1 = mask_run st \<and> max_items st1 = max_items st \<and>
      (if west_fg g st i j
       then run_number st1 = run_number st \<and>
            lengths (lists st1) = (lengths (lists st))[nat (run_number st) :=
                                     lengths (lists st) ! nat (run_number st) + 1] \<and>
            i_vec (lists st1) = i_vec (lists st) \<and> j_vec (lists st1) = j_vec (lists st) \<and>
            0 \<le> run_number st \<and> run_number st < int (length (lengths (lists st))) \<and>
            (if sink_here e st i j
             then setRunSink (run_number st) (parents (lists st)) = Some (parents (lists st1))
             else parents (lists st1) = parents (lists st))
       else run_number st1 = run_number st + 1 \<and>
            0 \<le> run_number st + 1 \<and> run_number st + 1 < int (length (parents (lists st))) \<and>
            lengths (lists st1) = (lengths (lists st))[nat (run_number st + 1) := 1] \<and>
            i_vec (lists st1) = (i_vec (lists st))[nat (run_number st + 1) := i] \<and>
            j_vec (lists st1) = (j_vec (lists st))[nat (run_number st + 1) := j] \<and>
            parents (lists st1) = (parents (lists st))[nat (run_number st + 1) :=
                     (if sink_here e st i j then 1
                      else if south_fg g st i j then mask_run st (i, j - 1) else 0)])"
  proof (cases ?cont)
    case True
    from st1 have "continueRun e i j st = Some st1" unfolding if_P[OF True] .
    from continueRun_effect[OF this] True show ?thesis unfolding c by simp
  next
    case False
    from st1 have "startNewRun e i j ?p st = Some st1" unfolding if_not_P[OF False] .
    from CC_startNewRun_Some[OF startNewRun_effect[OF this]] False show ?thesis
      unfolding c so by simp
  qed
  show ?thesis
  proof (cases ?south)
    case True
    from rest have "mergeRuns (run_number st1) ?s st1 = Some st'" unfolding if_P[OF True] .
    note b = mergeRuns_Some[OF this]
    from True have so': "south_fg g st i j" by (simp add: so)
    from A b show ?thesis unfolding if_P[OF so']
      by (intro conjI exI[of _ "parents (lists st1)"]) (auto split: if_splits)
  next
    case False
    from rest have e: "st1 = st'" unfolding if_not_P[OF False] by simp
    from False have so': "\<not> south_fg g st i j" by (simp add: so)
    from A e show ?thesis unfolding if_not_P[OF so']
      by (intro conjI exI[of _ "parents (lists st1)"]) (auto split: if_splits)
  qed
qed

lemma prepared_west: "prepared g fg m \<Longrightarrow> west_prepared g fg m"
  unfolding prepared_def west_prepared_def
proof (intro allI impI)
  fix i j
  assume p: "\<forall>c. owned g c \<and> \<not> fg (fst c) (snd c) \<longrightarrow> m c \<le> 0"
    and a: "owned g (i, j) \<and> fg i j \<and> i_local_first g < i \<and> \<not> fg (i - 1) j"
  then have "owned g (i - 1, j)" by (auto simp: owned_def)
  with p a show "m (i - 1, j) \<le> 0" by (auto dest!: spec[of _ "(i - 1, j)"])
qed

lemma run_cells_cong:
  assumes "lengths L' ! nat k = lengths L ! nat k" "i_vec L' ! nat k = i_vec L ! nat k"
    "j_vec L' ! nat k = j_vec L ! nat k"
  shows "run_cells L' k = run_cells L k"
  using assms by (simp add: run_cells_def)

lemma run_cells_extend:
  assumes "lengths L' ! nat k = lengths L ! nat k + 1" "i_vec L' ! nat k = i_vec L ! nat k"
    "j_vec L' ! nat k = j_vec L ! nat k" "0 \<le> lengths L ! nat k"
  shows "run_cells L' k = insert (i_vec L ! nat k + lengths L ! nat k, j_vec L ! nat k) (run_cells L k)"
proof -
  have "0 \<le> n \<and> n < lengths L ! nat k + 1 \<longleftrightarrow> n = lengths L ! nat k \<or> (0 \<le> n \<and> n < lengths L ! nat k)"
    for n using assms(4) by auto
  with assms(1-3) show ?thesis unfolding run_cells_def by auto
qed

lemma run_cells_single:
  assumes "lengths L ! nat k = 1"
  shows "run_cells L k = {(i_vec L ! nat k, j_vec L ! nat k)}"
proof -
  have "0 \<le> n \<and> n < 1 \<longleftrightarrow> n = 0" for n :: int by auto
  with assms show ?thesis unfolding run_cells_def by auto
qed

lemma nth_resize:
  assumes "k < length v" "length v \<le> m"
  shows "resize v m ! k = v ! k"
  using assms by (simp add: resize_def nth_append)

lemma geomI:
  assumes "1 \<le> run_number st" "sized st" "run_number st < max_items st"
    "lengths (lists st) ! 0 = 0" "lengths (lists st) ! 1 = 0"
    "\<And>c. c \<notin> fgset fg cs \<Longrightarrow> mask_run st c = m0 c"
    "\<And>c. c \<in> fgset fg cs \<Longrightarrow> 2 \<le> mask_run st c \<and> mask_run st c \<le> run_number st \<and>
                        c \<in> run_cells (lists st) (mask_run st c)"
    "\<And>k. 2 \<le> k \<Longrightarrow> k \<le> run_number st \<Longrightarrow> 1 \<le> lengths (lists st) ! nat k"
    "\<And>k c. 2 \<le> k \<Longrightarrow> k \<le> run_number st \<Longrightarrow> c \<in> run_cells (lists st) k \<Longrightarrow>
            c \<in> fgset fg cs \<and> mask_run st c = k"
    "cs \<noteq> [] \<Longrightarrow> last cs \<in> fgset fg cs \<Longrightarrow> 2 \<le> run_number st \<and>
          last cs = (i_vec (lists st) ! nat (run_number st) +
                       lengths (lists st) ! nat (run_number st) - 1,
                     j_vec (lists st) ! nat (run_number st))"
  shows "geom fg m0 cs st"
  unfolding geom_def using assms by blast

lemma geomD:
  assumes "geom fg m0 cs st"
  shows "1 \<le> run_number st" "sized st" "run_number st < max_items st"
    "lengths (lists st) ! 0 = 0" "lengths (lists st) ! 1 = 0"
  using assms unfolding geom_def by blast+

lemma geomD_bg:
  assumes "geom fg m0 cs st" "c \<notin> fgset fg cs"
  shows "mask_run st c = m0 c"
  using assms unfolding geom_def by blast

lemma geomD_fg:
  assumes "geom fg m0 cs st" "c \<in> fgset fg cs"
  shows "2 \<le> mask_run st c" "mask_run st c \<le> run_number st"
        "c \<in> run_cells (lists st) (mask_run st c)"
  using assms unfolding geom_def by blast+

lemma geomD_run:
  assumes "geom fg m0 cs st" "2 \<le> k" "k \<le> run_number st"
  shows "1 \<le> lengths (lists st) ! nat k"
    "c \<in> run_cells (lists st) k \<Longrightarrow> c \<in> fgset fg cs \<and> mask_run st c = k"
  using assms unfolding geom_def by blast+

lemma geomD_last:
  assumes "geom fg m0 cs st" "cs \<noteq> []" "last cs \<in> fgset fg cs"
  shows "2 \<le> run_number st"
    "last cs = (i_vec (lists st) ! nat (run_number st) +
                       lengths (lists st) ! nat (run_number st) - 1,
                     j_vec (lists st) ! nat (run_number st))"
  using assms unfolding geom_def by blast+

lemma geom_resize:
  assumes "geom fg m0 cs st" "max_items st \<le> m"
  shows "geom fg m0 cs (st\<lparr>max_items := m, lists := resizeLists (lists st) m\<rparr>)"
proof -
  let ?L = "lists st" and ?L' = "resizeLists (lists st) m"
  let ?st' = "st\<lparr>max_items := m, lists := ?L'\<rparr>"
  note d = geomD[OF assms(1)]
  from d assms(2) have m0: "0 \<le> m" by (simp add: sized_def)
  have nth: "lengths ?L' ! nat k = lengths ?L ! nat k \<and> i_vec ?L' ! nat k = i_vec ?L ! nat k \<and>
             j_vec ?L' ! nat k = j_vec ?L ! nat k"
    if "0 \<le> k" "k \<le> run_number st" for k
  proof -
    from that d have "nat k < length (lengths ?L)" "nat k < length (i_vec ?L)"
      "nat k < length (j_vec ?L)" by (auto simp: sized_def)
    moreover from d assms(2) have "length (lengths ?L) \<le> nat m" "length (i_vec ?L) \<le> nat m"
      "length (j_vec ?L) \<le> nat m" by (auto simp: sized_def)
    ultimately show ?thesis by (simp add: resizeLists_def nth_resize)
  qed
  have rc: "run_cells ?L' k = run_cells ?L k" if "0 \<le> k" "k \<le> run_number st" for k
    using nth[OF that] by (intro run_cells_cong) auto
  from nth[of 0] nth[of 1] d have z: "lengths ?L' ! 0 = lengths ?L ! 0" "lengths ?L' ! 1 = lengths ?L ! 1"
    by auto
  show ?thesis
  proof (rule geomI)
    show "1 \<le> run_number ?st'" using d by simp
    show "sized ?st'" using sized_resize[OF m0, of st] by simp
    show "run_number ?st' < max_items ?st'" using d assms(2) by simp
    show "lengths (lists ?st') ! 0 = 0" "lengths (lists ?st') ! 1 = 0" using z d by simp_all
    show "mask_run ?st' c = m0 c" if "c \<notin> fgset fg cs" for c
      using geomD_bg[OF assms(1) that] by simp
    show "2 \<le> mask_run ?st' c \<and> mask_run ?st' c \<le> run_number ?st' \<and>
            c \<in> run_cells (lists ?st') (mask_run ?st' c)" if "c \<in> fgset fg cs" for c
      using geomD_fg[OF assms(1) that] rc[of "mask_run st c"] by simp
    show "1 \<le> lengths (lists ?st') ! nat k" if "2 \<le> k" "k \<le> run_number ?st'" for k
      using geomD_run(1)[OF assms(1), of k] that nth[of k] by simp
    show "c \<in> fgset fg cs \<and> mask_run ?st' c = k"
      if "2 \<le> k" "k \<le> run_number ?st'" "c \<in> run_cells (lists ?st') k" for k c
      using geomD_run(2)[OF assms(1), of k c] that rc[of k] by simp
    show "2 \<le> run_number ?st' \<and>
          last cs = (i_vec (lists ?st') ! nat (run_number ?st') +
                       lengths (lists ?st') ! nat (run_number ?st') - 1,
                     j_vec (lists ?st') ! nat (run_number ?st'))"
      if "cs \<noteq> []" "last cs \<in> fgset fg cs"
      using geomD_last[OF assms(1) that] nth[of "run_number st"] by simp
  qed
qed

lemma setRunSink_length:
  "setRunSink run ps = Some ps' \<Longrightarrow> length ps' = length ps"
  by (auto simp: setRunSink_def bind_eq_Some_conv vset_Some split: if_splits)

lemma checkForegroundPixel_sized:
  assumes "checkForegroundPixel e g i j st = Some st'" "sized st"
  shows "sized st'"
proof -
  from checkForegroundPixel_effect[OF assms(1)] obtain ps1 where
    mx: "max_items st' = max_items st" and
    a: "if west_fg g st i j
       then lengths (lists st') = (lengths (lists st))[nat (run_number st) :=
                                     lengths (lists st) ! nat (run_number st) + 1] \<and>
            i_vec (lists st') = i_vec (lists st) \<and> j_vec (lists st') = j_vec (lists st) \<and>
            (if sink_here e st i j
             then setRunSink (run_number st) (parents (lists st)) = Some ps1
             else ps1 = parents (lists st))
       else lengths (lists st') = (lengths (lists st))[nat (run_number st + 1) := 1] \<and>
            i_vec (lists st') = (i_vec (lists st))[nat (run_number st + 1) := i] \<and>
            j_vec (lists st') = (j_vec (lists st))[nat (run_number st + 1) := j] \<and>
            ps1 = (parents (lists st))[nat (run_number st + 1) :=
                     (if sink_here e st i j then 1
                      else if south_fg g st i j then mask_run st (i, j - 1) else 0)]" and
    b: "if south_fg g st i j
       then run_union ps1 (mask_run st (i, j - 1)) (run_number st') = Some (parents (lists st'))
       else parents (lists st') = ps1"
    by (auto split: if_splits)
  from a have l1: "length ps1 = length (parents (lists st))"
    by (auto split: if_splits dest: setRunSink_length)
  from b have "length (parents (lists st')) = length ps1"
    by (auto split: if_splits dest: run_union_length)
  with l1 a mx assms(2) show ?thesis
    by (auto simp: sized_def split: if_splits)
qed

lemma west_fg_iff:
  assumes P: "points g = done @ c # rest" and G: "geom fg m0 done st"
    and W: "west_prepared g fg m0" and fc: "fg (fst c) (snd c)"
  shows "west_fg g st (fst c) (snd c) \<longleftrightarrow> i_local_first g < fst c \<and> fg (fst c - 1) (snd c)"
proof (cases "i_local_first g < fst c")
  case False
  then show ?thesis by (simp add: west_fg_def)
next
  case True
  let ?w = "(fst c - 1, snd c)"
  from points_west[OF P True] have w: "?w \<in> set done" by (metis last_in_set)
  show ?thesis
  proof (cases "fg (fst c - 1) (snd c)")
    case fw: True
    with w have "?w \<in> fgset fg done" by (simp add: fgset_def)
    from geomD_fg(1)[OF G this] True fw show ?thesis by (simp add: west_fg_def)
  next
    case fw: False
    then have "?w \<notin> fgset fg done" by (simp add: fgset_def)
    from geomD_bg[OF G this] have "mask_run st ?w = m0 ?w" .
    moreover from points_split(1)[OF P] have "owned g (fst c, snd c)" by simp
    with W fc True fw have "m0 ?w \<le> 0" unfolding west_prepared_def by blast
    ultimately show ?thesis using fw by (simp add: west_fg_def)
  qed
qed

lemma fgset_snoc:
  "fgset fg (cs @ [c]) = (if fg (fst c) (snd c) then insert c (fgset fg cs) else fgset fg cs)"
  by (auto simp: fgset_def)

lemma geom_skip:
  assumes "geom fg m0 cs st" "\<not> fg (fst c) (snd c)"
  shows "geom fg m0 (cs @ [c]) st"
proof -
  from assms(2) have f: "fgset fg (cs @ [c]) = fgset fg cs" by (simp add: fgset_snoc)
  from assms(2) have l: "last (cs @ [c]) \<notin> fgset fg cs" 
  proof -
    have "last (cs @ [c]) = c" by simp
    with assms(2) show ?thesis by (simp add: fgset_def)
  qed
  from assms(1) show ?thesis unfolding geom_def f using l by blast
qed

lemma geom_continue:
  assumes P: "points g = done @ c # rest" and G: "geom fg m0 done st"
    and fc: "fg (fst c) (snd c)" and w: "i_local_first g < fst c" "fg (fst c - 1) (snd c)"
    and rn: "run_number st1 = run_number st" and sz: "sized st1"
    and mx: "max_items st1 = max_items st"
    and l: "lengths (lists st1) = (lengths (lists st))[nat (run_number st) :=
                                     lengths (lists st) ! nat (run_number st) + 1]"
    and iv: "i_vec (lists st1) = i_vec (lists st)" and jv: "j_vec (lists st1) = j_vec (lists st)"
    and m: "m1 = (mask_run st)(c := run_number st)"
  shows "geom fg m0 (done @ [c]) (st1\<lparr>mask_run := m1\<rparr>)"
proof -
  let ?L = "lists st" and ?L1 = "lists st1" and ?n = "run_number st"
  let ?st' = "st1\<lparr>mask_run := m1\<rparr>"
  note d = geomD[OF G]
  note p = points_split[OF P]
  from points_west[OF P w(1)] have ld: "done \<noteq> []" "last done = (fst c - 1, snd c)" by auto
  moreover from ld(1) have "last done \<in> set done" by (rule last_in_set)
  ultimately have "last done \<in> fgset fg done" using w(2) by (simp add: fgset_def)
  from geomD_last[OF G ld(1) this] ld(2)
  have n2: "2 \<le> ?n" and we: "(fst c - 1, snd c) =
      (i_vec ?L ! nat ?n + lengths ?L ! nat ?n - 1, j_vec ?L ! nat ?n)" by auto
  from we have ce: "c = (i_vec ?L ! nat ?n + lengths ?L ! nat ?n, j_vec ?L ! nat ?n)"
    by (cases c) auto
  from d n2 have inr: "nat ?n < length (lengths ?L)" by (auto simp: sized_def)
  from geomD_run(1)[OF G n2] have len1: "1 \<le> lengths ?L ! nat ?n" by simp
  have fs: "fgset fg (done @ [c]) = insert c (fgset fg done)" using fc by (simp add: fgset_snoc)
  have cnf: "c \<notin> fgset fg done" using p(2) by (simp add: fgset_def)
  have ln: "lengths ?L1 ! nat ?n = lengths ?L ! nat ?n + 1" using l inr by simp
  have lk: "lengths ?L1 ! nat k = lengths ?L ! nat k" if "0 \<le> k" "k \<noteq> ?n" for k
  proof -
    from that n2 have "nat k \<noteq> nat ?n" by auto
    then show ?thesis using l by simp
  qed
  have rcn: "run_cells ?L1 ?n = insert c (run_cells ?L ?n)"
    using run_cells_extend[of ?L1 ?n ?L] ln iv jv len1 ce by simp
  have rck: "run_cells ?L1 k = run_cells ?L k" if "0 \<le> k" "k \<noteq> ?n" for k
    using lk[OF that] iv jv by (intro run_cells_cong) auto
  show ?thesis
  proof (rule geomI)
    show "1 \<le> run_number ?st'" using d rn by simp
    show "sized ?st'" using sz by (simp add: sized_def)
    show "run_number ?st' < max_items ?st'" using d rn mx by simp
    show "lengths (lists ?st') ! 0 = 0" using lk[of 0] n2 d by simp
    show "lengths (lists ?st') ! 1 = 0" using lk[of 1] n2 d by simp
    show "mask_run ?st' x = m0 x" if "x \<notin> fgset fg (done @ [c])" for x
    proof -
      from that fs have "x \<noteq> c" "x \<notin> fgset fg done" by auto
      with geomD_bg[OF G this(2)] m show ?thesis by simp
    qed
    show "2 \<le> mask_run ?st' x \<and> mask_run ?st' x \<le> run_number ?st' \<and>
            x \<in> run_cells (lists ?st') (mask_run ?st' x)" if "x \<in> fgset fg (done @ [c])" for x
    proof (cases "x = c")
      case True
      with m rn n2 rcn show ?thesis by simp
    next
      case False
      with that fs have xf: "x \<in> fgset fg done" by simp
      note f = geomD_fg[OF G xf]
      have "x \<in> run_cells ?L1 (mask_run st x)"
      proof (cases "mask_run st x = ?n")
        case True
        with f(3) rcn show ?thesis by simp
      next
        case ne: False
        with rck[of "mask_run st x"] f show ?thesis by simp
      qed
      with False f m rn show ?thesis by simp
    qed
    show "1 \<le> lengths (lists ?st') ! nat k" if "2 \<le> k" "k \<le> run_number ?st'" for k
    proof (cases "k = ?n")
      case True
      with ln len1 show ?thesis by simp
    next
      case False
      with lk[of k] that geomD_run(1)[OF G that(1)] rn show ?thesis by simp
    qed
    show "x \<in> fgset fg (done @ [c]) \<and> mask_run ?st' x = k"
      if "2 \<le> k" "k \<le> run_number ?st'" "x \<in> run_cells (lists ?st') k" for k x
    proof (cases "x = c")
      case True
      have "k = ?n"
      proof (rule ccontr)
        assume "k \<noteq> ?n"
        with that rck[of k] have "x \<in> run_cells ?L k" by simp
        from geomD_run(2)[OF G that(1) _ this] that(2) rn True cnf show False by simp
      qed
      with True fs m show ?thesis by simp
    next
      case False
      have "x \<in> run_cells ?L k"
      proof (cases "k = ?n")
        case True
        with that(3) rcn False show ?thesis by simp
      next
        case ne: False
        with that rck[of k] show ?thesis by simp
      qed
      from geomD_run(2)[OF G that(1) _ this] that(2) rn False fs m show ?thesis by simp
    qed
    show "2 \<le> run_number ?st' \<and>
          last (done @ [c]) = (i_vec (lists ?st') ! nat (run_number ?st') +
                       lengths (lists ?st') ! nat (run_number ?st') - 1,
                     j_vec (lists ?st') ! nat (run_number ?st'))"
      using n2 rn ce ln iv jv by simp
  qed
qed

lemma geom_new:
  assumes P: "points g = done @ c # rest" and G: "geom fg m0 done st"
    and fc: "fg (fst c) (snd c)"
    and rn: "run_number st1 = run_number st + 1" and sz: "sized st1"
    and mx: "max_items st1 = max_items st"
    and cap: "run_number st + 1 < max_items st"
    and l: "lengths (lists st1) = (lengths (lists st))[nat (run_number st + 1) := 1]"
    and iv: "i_vec (lists st1) = (i_vec (lists st))[nat (run_number st + 1) := fst c]"
    and jv: "j_vec (lists st1) = (j_vec (lists st))[nat (run_number st + 1) := snd c]"
    and m: "m1 = (mask_run st)(c := run_number st + 1)"
  shows "geom fg m0 (done @ [c]) (st1\<lparr>mask_run := m1\<rparr>)"
proof -
  let ?L = "lists st" and ?L1 = "lists st1" and ?n = "run_number st + 1"
  let ?st' = "st1\<lparr>mask_run := m1\<rparr>"
  note d = geomD[OF G]
  note p = points_split[OF P]
  from d cap have inr: "nat ?n < length (lengths ?L)" "nat ?n < length (i_vec ?L)"
    "nat ?n < length (j_vec ?L)" by (auto simp: sized_def)
  have fs: "fgset fg (done @ [c]) = insert c (fgset fg done)" using fc by (simp add: fgset_snoc)
  have cnf: "c \<notin> fgset fg done" using p(2) by (simp add: fgset_def)
  have ln: "lengths ?L1 ! nat ?n = 1" "i_vec ?L1 ! nat ?n = fst c" "j_vec ?L1 ! nat ?n = snd c"
    using l iv jv inr by simp_all
  have lk: "lengths ?L1 ! nat k = lengths ?L ! nat k \<and> i_vec ?L1 ! nat k = i_vec ?L ! nat k \<and>
            j_vec ?L1 ! nat k = j_vec ?L ! nat k" if "0 \<le> k" "k \<noteq> ?n" for k
  proof -
    from that d have "nat k \<noteq> nat ?n" by auto
    then show ?thesis using l iv jv by simp
  qed
  have rcn: "run_cells ?L1 ?n = {c}"
    using run_cells_single[of ?L1 ?n] ln by simp
  have rck: "run_cells ?L1 k = run_cells ?L k" if "0 \<le> k" "k \<noteq> ?n" for k
    using lk[OF that] by (intro run_cells_cong) auto
  show ?thesis
  proof (rule geomI)
    show "1 \<le> run_number ?st'" using d rn by simp
    show "sized ?st'" using sz by (simp add: sized_def)
    show "run_number ?st' < max_items ?st'" using cap rn mx by simp
    show "lengths (lists ?st') ! 0 = 0" using lk[of 0] d by simp
    show "lengths (lists ?st') ! 1 = 0" using lk[of 1] d by simp
    show "mask_run ?st' x = m0 x" if "x \<notin> fgset fg (done @ [c])" for x
    proof -
      from that fs have "x \<noteq> c" "x \<notin> fgset fg done" by auto
      with geomD_bg[OF G this(2)] m show ?thesis by simp
    qed
    show "2 \<le> mask_run ?st' x \<and> mask_run ?st' x \<le> run_number ?st' \<and>
            x \<in> run_cells (lists ?st') (mask_run ?st' x)" if "x \<in> fgset fg (done @ [c])" for x
    proof (cases "x = c")
      case True
      with m rn d rcn show ?thesis by simp
    next
      case False
      with that fs have xf: "x \<in> fgset fg done" by simp
      note f = geomD_fg[OF G xf]
      with rck[of "mask_run st x"] have "x \<in> run_cells ?L1 (mask_run st x)" by simp
      with False f m rn show ?thesis by simp
    qed
    show "1 \<le> lengths (lists ?st') ! nat k" if "2 \<le> k" "k \<le> run_number ?st'" for k
    proof (cases "k = ?n")
      case True
      with ln show ?thesis by simp
    next
      case False
      with lk[of k] that geomD_run(1)[OF G that(1)] rn show ?thesis by simp
    qed
    show "x \<in> fgset fg (done @ [c]) \<and> mask_run ?st' x = k"
      if "2 \<le> k" "k \<le> run_number ?st'" "x \<in> run_cells (lists ?st') k" for k x
    proof (cases "k = ?n")
      case True
      with that(3) rcn have "x = c" by simp
      with True fs m show ?thesis by simp
    next
      case False
      with that rck[of k] rn have x: "x \<in> run_cells ?L k" and k: "k \<le> run_number st" by auto
      from geomD_run(2)[OF G that(1) k x] have "x \<in> fgset fg done" "mask_run st x = k" by auto
      with cnf fs m show ?thesis by auto
    qed
    show "2 \<le> run_number ?st' \<and>
          last (done @ [c]) = (i_vec (lists ?st') ! nat (run_number ?st') +
                       lengths (lists ?st') ! nat (run_number ?st') - 1,
                     j_vec (lists ?st') ! nat (run_number ?st'))"
      using d rn ln by simp
  qed
qed

lemma scan_step_bg: "\<not> fg (fst c) (snd c) \<Longrightarrow> scan_step e g fg c st = Some st"
  by (cases c) (simp add: scan_step_def)

lemma scan_step_fg:
  assumes "fg (fst c) (snd c)"
  shows "scan_step e g fg c st =
     map_option (\<lambda>st1. grow g (st1\<lparr>mask_run := (mask_run st1)(c := run_number st1)\<rparr>))
       (checkForegroundPixel e g (fst c) (snd c) st)"
  using assms
  by (cases c; cases "checkForegroundPixel e g (fst c) (snd c) st")
     (simp_all add: scan_step_def grow_def Let_def)

lemma geom_grow:
  assumes "geom fg m0 cs st" "0 \<le> ym g"
  shows "geom fg m0 cs (grow g st)"
  using geom_resize[OF assms(1), of "max_items st + ym g"] assms by (simp add: grow_def)

lemma geom_step:
  assumes P: "points g = done @ c # rest" and G: "geom fg m0 done st"
    and W: "west_prepared g fg m0" and S: "scan_step e g fg c st = Some st'"
  shows "geom fg m0 (done @ [c]) st'"
proof (cases "fg (fst c) (snd c)")
  case False
  from scan_step_bg[where fg = fg and c = c, OF False, of e g st] S have "st' = st" by simp
  with geom_skip[where fg = fg and c = c, OF G False] show ?thesis by simp
next
  case True
  from S scan_step_fg[where fg = fg and c = c, OF True, of e g st] obtain st1 where
    c1: "checkForegroundPixel e g (fst c) (snd c) st = Some st1"
    and st': "st' = grow g (st1\<lparr>mask_run := (mask_run st1)(c := run_number st1)\<rparr>)"
    by auto
  note d = geomD[OF G]
  from points_split(1)[OF P] have ym: "0 \<le> ym g" using owned_ym[of g c] by simp
  from checkForegroundPixel_sized[OF c1 d(2)] have sz1: "sized st1" .
  from checkForegroundPixel_effect[OF c1] have
    m1: "mask_run st1 = mask_run st" and mx: "max_items st1 = max_items st" and
    a: "if west_fg g st (fst c) (snd c)
       then run_number st1 = run_number st \<and>
            lengths (lists st1) = (lengths (lists st))[nat (run_number st) :=
                                     lengths (lists st) ! nat (run_number st) + 1] \<and>
            i_vec (lists st1) = i_vec (lists st) \<and> j_vec (lists st1) = j_vec (lists st)
       else run_number st1 = run_number st + 1 \<and>
            run_number st + 1 < int (length (parents (lists st))) \<and>
            lengths (lists st1) = (lengths (lists st))[nat (run_number st + 1) := 1] \<and>
            i_vec (lists st1) = (i_vec (lists st))[nat (run_number st + 1) := fst c] \<and>
            j_vec (lists st1) = (j_vec (lists st))[nat (run_number st + 1) := snd c]"
    by (auto split: if_splits)
  have "geom fg m0 (done @ [c]) (st1\<lparr>mask_run := (mask_run st1)(c := run_number st1)\<rparr>)"
  proof (cases "west_fg g st (fst c) (snd c)")
    case w: True
    with west_fg_iff[OF P G W True] have w': "i_local_first g < fst c" "fg (fst c - 1) (snd c)"
      by auto
    from a w have b: "run_number st1 = run_number st"
            "lengths (lists st1) = (lengths (lists st))[nat (run_number st) :=
                                     lengths (lists st) ! nat (run_number st) + 1]"
            "i_vec (lists st1) = i_vec (lists st)" "j_vec (lists st1) = j_vec (lists st)"
      by auto
    show ?thesis
      by (rule geom_continue[OF P G True w' b(1) sz1 mx b(2,3,4)]) (simp add: m1 b(1))
  next
    case w: False
    with a have b: "run_number st1 = run_number st + 1"
            "run_number st + 1 < int (length (parents (lists st)))"
            "lengths (lists st1) = (lengths (lists st))[nat (run_number st + 1) := 1]"
            "i_vec (lists st1) = (i_vec (lists st))[nat (run_number st + 1) := fst c]"
            "j_vec (lists st1) = (j_vec (lists st))[nat (run_number st + 1) := snd c]"
      by auto
    from b(2) d(2) have cap: "run_number st + 1 < max_items st" by (simp add: sized_def)
    show ?thesis
      by (rule geom_new[OF P G True b(1) sz1 mx cap b(3,4,5)]) (simp add: m1 b(1))
  qed
  from geom_grow[OF this ym] st' show ?thesis by simp
qed

lemma geom_scan:
  assumes "points g = done @ cs @ rest" "geom fg m0 done st" "west_prepared g fg m0"
    "scan e g fg cs st = Some st'"
  shows "geom fg m0 (done @ cs) st'"
  using assms(1,2,4)
proof (induction cs arbitrary: "done" st)
  case Nil
  then show ?case by simp
next
  case (Cons c cs)
  from Cons.prems(3) obtain st1 where st1: "scan_step e g fg c st = Some st1"
     "scan e g fg cs st1 = Some st'" by (auto split: option.splits)
  from Cons.prems(1) have P: "points g = done @ c # (cs @ rest)" by simp
  from geom_step[OF P Cons.prems(2) assms(3) st1(1)] have G1: "geom fg m0 (done @ [c]) st1" .
  from Cons.prems(1) have "points g = (done @ [c]) @ cs @ rest" by simp
  from Cons.IH[OF this G1 st1(2)] show ?case by simp
qed

lemma geom_initial:
  assumes "initial sz m0 = Some st0"
  shows "geom fg m0 [] st0"
proof -
  from assms have s: "2 \<le> sz" and st0: "st0 = \<lparr>run_number = 1,
                       lists = \<lparr>parents = replicate sz 0, lengths = replicate sz 0,
                                j_vec = replicate sz 0, i_vec = replicate sz 0\<rparr>,
                       max_items = int sz, mask_run = m0\<rparr>"
    by (auto simp: initial_Some)
  show ?thesis
    by (rule geomI) (use s in \<open>auto simp: st0 sized_def fgset_def\<close>)
qed

lemma geom_prefix:
  assumes "initial sz m0 = Some st0" "west_prepared g fg m0"
    "scan e g fg (take n (points g)) st0 = Some st"
  shows "geom fg m0 (take n (points g)) st"
proof -
  have "points g = [] @ take n (points g) @ drop n (points g)" by simp
  from geom_scan[OF this geom_initial[OF assms(1)] assms(2,3)] show ?thesis by simp
qed

lemma geom_full:
  assumes "initial sz m0 = Some st0" "west_prepared g fg m0"
    "scan e g fg (points g) st0 = Some st"
  shows "geom fg m0 (points g) st"
  using geom_prefix[OF assms(1,2), of e "length (points g)" st] assms(3) by simp

subsection \<open>Label resolution writes the cells of the runs\<close>

lemma fold_label:
  "fold (\<lambda>n m. m((i0 + int n, j0) := label)) [0..<N] m =
     (\<lambda>c. if c \<in> (\<lambda>n. (i0 + int n, j0)) ` {..<N} then label else m c)"
proof (induction N)
  case 0
  then show ?case by simp
next
  case (Suc N)
  let ?F = "\<lambda>n m. m((i0 + int n, j0) := label)"
  have "fold ?F [0..<Suc N] m = (fold ?F [0..<N] m)((i0 + int N, j0) := label)" by simp
  also have "\<dots> = (\<lambda>c. if c \<in> (\<lambda>n. (i0 + int n, j0)) ` {..<N} then label else m c)
                       ((i0 + int N, j0) := label)"
    by (simp only: Suc.IH)
  also have "\<dots> = (\<lambda>c. if c \<in> (\<lambda>n. (i0 + int n, j0)) ` {..<Suc N} then label else m c)"
    by (auto simp: lessThan_Suc fun_eq_iff)
  finally show ?case .
qed

lemma run_cells_image:
  "run_cells L k = (\<lambda>n. (i_vec L ! nat k + int n, j_vec L ! nat k)) ` {..<nat (lengths L ! nat k)}"
proof (intro set_eqI iffI)
  fix c assume "c \<in> run_cells L k"
  then obtain n where n: "c = (i_vec L ! nat k + n, j_vec L ! nat k)" "0 \<le> n"
    "n < lengths L ! nat k" unfolding run_cells_def by blast
  then have "c = (i_vec L ! nat k + int (nat n), j_vec L ! nat k)" "nat n < nat (lengths L ! nat k)"
    by auto
  then show "c \<in> (\<lambda>n. (i_vec L ! nat k + int n, j_vec L ! nat k)) ` {..<nat (lengths L ! nat k)}"
    by blast
next
  fix c assume "c \<in> (\<lambda>n. (i_vec L ! nat k + int n, j_vec L ! nat k)) ` {..<nat (lengths L ! nat k)}"
  then obtain n where "c = (i_vec L ! nat k + int n, j_vec L ! nat k)" "n < nat (lengths L ! nat k)"
    by blast
  then have "c = (i_vec L ! nat k + int n, j_vec L ! nat k) \<and> 0 \<le> int n \<and>
     int n < lengths L ! nat k" by auto
  then show "c \<in> run_cells L k" unfolding run_cells_def by blast
qed

lemma label_run_Some:
  assumes "label_run (parents L) (lengths L) (j_vec L) (i_vec L) k m = Some m'"
  shows "\<exists>label. trackParentRun k (parents L) = Some label \<and>
           m' = (\<lambda>c. if c \<in> run_cells L k then label else m c)"
proof -
  from assms obtain label len i0 j0 where
    t: "trackParentRun k (parents L) = Some label" and len: "vget (lengths L) k = Some len"
    and i0: "(if 0 < len then vget (i_vec L) k else Some 0) = Some i0"
    and j0: "(if 0 < len then vget (j_vec L) k else Some 0) = Some j0"
    and m': "m' = fold (\<lambda>n m. m((i0 + int n, j0) := label)) [0..<nat len] m"
    unfolding label_run_def bind_eq_Some_conv by blast
  from len have l: "lengths L ! nat k = len" by (simp add: vget_Some)
  have "(\<lambda>n. (i0 + int n, j0)) ` {..<nat len} = run_cells L k"
  proof (cases "0 < len")
    case True
    with i0 j0 have "i_vec L ! nat k = i0" "j_vec L ! nat k = j0" by (auto simp: vget_Some)
    with l show ?thesis by (simp add: run_cells_image)
  next
    case False
    with l show ?thesis by (simp add: run_cells_image)
  qed
  with m' t show ?thesis by (simp add: fold_label)
qed

lemma label_runs_char:
  assumes "label_runs L ks m = Some m'" "distinct ks"
  shows "(\<forall>c. (\<forall>k\<in>set ks. c \<notin> run_cells L k) \<longrightarrow> m' c = m c) \<and>
         (\<forall>c k. k \<in> set ks \<and> c \<in> run_cells L k \<and>
                 (\<forall>k'\<in>set ks. k' \<noteq> k \<longrightarrow> c \<notin> run_cells L k') \<longrightarrow>
                 trackParentRun k (parents L) = Some (m' c))"
  using assms
proof (induction ks arbitrary: m)
  case Nil
  then show ?case by simp
next
  case (Cons k ks)
  from Cons.prems(1) obtain m1 where
    m1: "label_run (parents L) (lengths L) (j_vec L) (i_vec L) k m = Some m1"
    and rest: "label_runs L ks m1 = Some m'" by (auto split: option.splits)
  from label_run_Some[OF m1] obtain label where
    t: "trackParentRun k (parents L) = Some label"
    and m1e: "m1 = (\<lambda>c. if c \<in> run_cells L k then label else m c)" by auto
  from Cons.prems(2) have dk: "k \<notin> set ks" "distinct ks" by auto
  from Cons.IH[OF rest dk(2)] have
    A: "\<And>c. (\<forall>k\<in>set ks. c \<notin> run_cells L k) \<Longrightarrow> m' c = m1 c" and
    B: "\<And>c k'. k' \<in> set ks \<Longrightarrow> c \<in> run_cells L k' \<Longrightarrow>
                 (\<forall>k''\<in>set ks. k'' \<noteq> k' \<longrightarrow> c \<notin> run_cells L k'') \<Longrightarrow>
                 trackParentRun k' (parents L) = Some (m' c)" by blast+
  show ?case
  proof (intro conjI allI impI)
    fix c assume "\<forall>k'\<in>set (k # ks). c \<notin> run_cells L k'"
    then have "c \<notin> run_cells L k" "\<forall>k'\<in>set ks. c \<notin> run_cells L k'" by auto
    with A[of c] m1e show "m' c = m c" by simp
  next
    fix c k'
    assume h: "k' \<in> set (k # ks) \<and> c \<in> run_cells L k' \<and>
               (\<forall>k''\<in>set (k # ks). k'' \<noteq> k' \<longrightarrow> c \<notin> run_cells L k'')"
    show "trackParentRun k' (parents L) = Some (m' c)"
    proof (cases "k' = k")
      case True
      with h dk have "\<forall>k''\<in>set ks. c \<notin> run_cells L k''" by auto
      from A[OF this] m1e h True have "m' c = label" by simp
      with t True show ?thesis by simp
    next
      case False
      with h have "k' \<in> set ks" "c \<in> run_cells L k'"
        "\<forall>k''\<in>set ks. k'' \<noteq> k' \<longrightarrow> c \<notin> run_cells L k''" by auto
      from B[OF this] show ?thesis .
    qed
  qed
qed

lemma fgset_points: "fgset fg (points g) = {c. owned g c \<and> fg (fst c) (snd c)}"
  by (auto simp: fgset_def set_points)

lemma geom_run_cells:
  assumes "geom fg m0 cs st" "0 \<le> k" "k \<le> run_number st"
  shows "run_cells (lists st) k \<subseteq> fgset fg cs"
proof (cases "2 \<le> k")
  case True
  from geomD_run(2)[OF assms(1) True assms(3)] show ?thesis by blast
next
  case False
  with assms(2) have "k = 0 \<or> k = 1" by auto
  with geomD(4,5)[OF assms(1)] have "lengths (lists st) ! nat k = 0" by auto
  then show ?thesis by (auto simp: run_cells_def)
qed

lemma labelMask_frame:
  assumes "labelMask st = Some st'"
    and "\<And>k. 0 \<le> k \<Longrightarrow> k \<le> run_number st \<Longrightarrow> run_cells (lists st) k \<subseteq> A"
    and "c \<notin> A"
  shows "mask_run st' c = mask_run st c"
proof -
  from assms(1) obtain m where m: "label_runs (lists st) [0..run_number st] (mask_run st) = Some m"
    and st': "st' = st\<lparr>mask_run := m\<rparr>" by (auto simp: labelMask_def bind_eq_Some_conv)
  have "distinct [0..run_number st]" by simp
  from label_runs_char[OF m this] have
    "(\<forall>k\<in>set [0..run_number st]. c \<notin> run_cells (lists st) k) \<longrightarrow> m c = mask_run st c" by blast
  moreover have "\<forall>k\<in>set [0..run_number st]. c \<notin> run_cells (lists st) k"
  proof
    fix k assume "k \<in> set [0..run_number st]"
    then have "0 \<le> k" "k \<le> run_number st" by auto
    from assms(2)[OF this] assms(3) show "c \<notin> run_cells (lists st) k" by blast
  qed
  ultimately show ?thesis using st' by simp
qed

lemma compute_runs_frame:
  assumes W: "west_prepared g fg m" and I: "initial sz m = Some st0"
    and C: "compute_runs e g fg env st0 = Some st'" and c: "\<not> (owned g c \<and> fg (fst c) (snd c))"
  shows "mask_run st' c = updateGhosts g env m c"
proof -
  from C obtain st1 st2 where s: "scan e g fg (points g) st0 = Some st1"
    "labelMask st1 = Some st2"
    "labelMask (st2\<lparr>mask_run := updateGhosts g env (mask_run st2)\<rparr>) = Some st'"
    by (auto simp: compute_runs_Some)
  note G = geom_full[OF I W s(1)]
  from c have cn: "c \<notin> fgset fg (points g)" by (simp add: fgset_points)
  from labelMask_lists[OF s(2)] have l2: "lists st2 = lists st1" "run_number st2 = run_number st1"
    by auto
  have 1: "mask_run st2 c = mask_run st1 c"
    by (rule labelMask_frame[OF s(2) _ cn]) (rule geom_run_cells[OF G])
  have 2: "mask_run st' c = updateGhosts g env (mask_run st2) c"
    using labelMask_frame[OF s(3) _ cn] geom_run_cells[OF G] l2 by simp
  from geomD_bg[OF G cn] have "mask_run st1 c = m c" .
  with 1 2 show ?thesis by (simp add: updateGhosts_def)
qed

text \<open>
  Claim C10, as amended. Provided that, before the invocation, no background cell lying
  directly west of a foreground cell of the tile holds a positive value, a labeling invocation
  writes labels only at the foreground cells of the tile: every owned background cell
  retains the value it held before the invocation (stale labels of earlier invocations
  included), and the cells the process does not own hold what the ghost exchange delivered.
\<close>

theorem C10_background_cells_keep_their_value:
  assumes "west_prepared g fg m" and "initial sz m = Some st0"
    and "compute_runs e g fg env st0 = Some st'"
  shows "(\<forall>c. owned g c \<and> \<not> fg (fst c) (snd c) \<longrightarrow> mask_run st' c = m c) \<and>
         (\<forall>c. \<not> owned g c \<longrightarrow> mask_run st' c = env c)"
proof (intro conjI allI impI)
  fix c assume "owned g c \<and> \<not> fg (fst c) (snd c)"
  with compute_runs_frame[OF assms, of c] show "mask_run st' c = m c"
    by (simp add: updateGhosts_def)
next
  fix c assume "\<not> owned g c"
  with compute_runs_frame[OF assms, of c] show "mask_run st' c = env c"
    by (simp add: updateGhosts_def)
qed

theorem C10_witness:
  "mask_run (the (compute_runs SinkCC grid_row4 fg_ends west_labels (the (initial 4 stale_harmless)))) (1, 0)
     = stale_harmless (1, 0) \<and>
   mask_run (the (compute_runs SinkCC grid_row4 fg_ends west_labels (the (initial 4 stale_harmless)))) (0, 0 - 1)
     = west_labels (0, 0 - 1)"
proof -
  have w: "west_prepared grid_row4 fg_ends stale_harmless"
    by (auto simp: west_prepared_def fg_ends_def stale_harmless_def no_sink_def)
  have i: "initial 4 stale_harmless = Some (the (initial 4 stale_harmless))"
    by (rule the_Some) code_simp
  have c: "compute_runs SinkCC grid_row4 fg_ends west_labels (the (initial 4 stale_harmless)) =
           Some (the (compute_runs SinkCC grid_row4 fg_ends west_labels (the (initial 4 stale_harmless))))"
    by (rule the_Some) code_simp
  have a: "owned grid_row4 (1, 0) \<and> \<not> fg_ends (fst (1, 0)) (snd (1, 0))" by code_simp
  have b: "\<not> owned grid_row4 (0, 0 - 1)" by code_simp
  from C10_background_cells_keep_their_value[OF w i c] a b show ?thesis by blast
qed

text \<open>
  Claim C10 as stated fails. In the row of four cells the stale label 5 at \<open>(2, 0)\<close> makes
  the scan continue run 2 onto the cell \<open>(3, 0)\<close>; the run then has length 2 and label
  resolution overwrites the background cell \<open>(1, 0)\<close>, which held 0, with the label 2.
\<close>

theorem C10_counterexample:
  "owned grid_row4 (1, 0) \<and> \<not> fg_ends 1 0 \<and> stale_five (1, 0) = 0 \<and>
   label_at (compute_runs SinkCC grid_row4 fg_ends no_sink (the (initial 4 stale_five))) (1, 0) = Some 2"
  by code_simp

lemma root_downward:
  assumes "downward ps n" "0 \<le> k" "k \<le> n"
  shows "trackParentRun k ps = Some (root ps k)" "0 \<le> root ps k" "root ps k \<le> k"
    "1 \<le> k \<Longrightarrow> 1 \<le> root ps k" "vget ps (root ps k) = Some 0"
proof -
  from track_downward[OF assms] obtain r where r: "trackParentRun k ps = Some r" "0 \<le> r" "r \<le> k"
    "1 \<le> k \<longrightarrow> 1 \<le> r" by auto
  then have e: "root ps k = r" by (simp add: root_def)
  from r e show "trackParentRun k ps = Some (root ps k)" "0 \<le> root ps k" "root ps k \<le> k"
    "1 \<le> k \<Longrightarrow> 1 \<le> root ps k" by auto
  from track_root[OF r(1)] e show "vget ps (root ps k) = Some 0" by simp
qed

lemma root_unfold:
  assumes "vget ps k = Some p"
  shows "root ps k = (if p = 0 then k else root ps p)"
  unfolding root_def by (subst trackParentRun.simps) (simp add: assms)

lemma root_root:
  assumes "downward ps n" "0 \<le> k" "k \<le> n"
  shows "root ps (root ps k) = root ps k"
  using root_unfold[OF root_downward(5)[OF assms]] by simp

lemma downward_vget:
  assumes "downward ps n" "0 \<le> k" "k \<le> n"
  shows "vget ps k = Some (ps ! nat k)"
  using assms by (auto simp: downward_def vget_def)

lemma root_agree:
  assumes d: "downward ps n" and d': "downward ps' n'" and nn: "n \<le> n'"
    and ag: "\<And>k. 0 \<le> k \<Longrightarrow> k \<le> n \<Longrightarrow> ps' ! nat k = ps ! nat k"
    and k: "0 \<le> k" "k \<le> n"
  shows "root ps' k = root ps k"
  using k
proof (induct "nat k" arbitrary: k rule: less_induct)
  case less
  let ?p = "ps ! nat k"
  from downward_vget[OF d less.prems] have g: "vget ps k = Some ?p" .
  from downward_vget[OF d' less.prems(1)] less.prems nn ag[OF less.prems]
  have g': "vget ps' k = Some ?p" by simp
  show ?case
  proof (cases "?p = 0")
    case True
    with root_unfold[OF g] root_unfold[OF g'] show ?thesis by simp
  next
    case False
    from d less.prems have "k < int (length ps)" by (simp add: downward_def)
    from downwardD[OF d less.prems(1) this] False have p: "0 \<le> ?p" "?p < k" by auto
    with less.prems have "nat ?p < nat k" "?p \<le> n" by auto
    from less.hyps[OF this(1) p(1) this(2)] root_unfold[OF g] root_unfold[OF g'] False
    show ?thesis by simp
  qed
qed

lemma root_resize:
  assumes "downward ps n" "length ps \<le> m" "0 \<le> k" "k \<le> n"
  shows "root (resize ps m) k = root ps k"
proof (rule root_agree[OF assms(1) downward_resize[OF assms(1,2)] order_refl _ assms(3,4)])
  fix j assume j: "0 \<le> j" "j \<le> n"
  from assms(1) have "n < int (length ps)" by (simp add: downward_def)
  with j have "nat j < length ps" by linarith
  then show "resize ps m ! nat j = ps ! nat j" using assms(2) by (rule nth_resize)
qed

lemma root_new:
  assumes d: "downward ps n" and cap: "n + 1 < int (length ps)" and p: "0 \<le> p" "p \<le> n"
  shows "\<And>k. 0 \<le> k \<Longrightarrow> k \<le> n \<Longrightarrow> root (ps[nat (n + 1) := p]) k = root ps k"
    and "root (ps[nat (n + 1) := p]) (n + 1) = (if p = 0 then n + 1 else root ps p)"
proof -
  let ?ps' = "ps[nat (n + 1) := p]"
  note d' = downward_new[OF d cap p]
  have ag: "?ps' ! nat k = ps ! nat k" if "0 \<le> k" "k \<le> n" for k
  proof -
    from that have "nat k \<noteq> nat (n + 1)" by auto
    then show ?thesis by simp
  qed
  show A: "root ?ps' k = root ps k" if "0 \<le> k" "k \<le> n" for k
    by (rule root_agree[OF d d' _ ag that]) simp_all
  from d have "1 \<le> n" by (simp add: downward_def)
  with cap have "vget ?ps' (n + 1) = Some p" by (simp add: vget_def)
  from root_unfold[OF this] A[OF p] show "root ?ps' (n + 1) = (if p = 0 then n + 1 else root ps p)"
    by simp
qed

lemma root_link:
  assumes d: "downward ps n" and r1: "2 \<le> r1" "r1 \<le> n" "ps ! nat r1 = 0"
    and r2: "1 \<le> r2" "r2 < r1" "ps ! nat r2 = 0"
    and k: "0 \<le> k" "k \<le> n"
  shows "root (ps[nat r1 := r2]) k = (if root ps k = r1 then r2 else root ps k)"
  using k
proof (induct "nat k" arbitrary: k rule: less_induct)
  case less
  let ?ps' = "ps[nat r1 := r2]"
  from r2 have r20: "0 \<le> r2" by simp
  note d' = downward_link[OF d r1 r20 r2(2)]
  from d less.prems have inr: "k < int (length ps)" by (simp add: downward_def)
  from downward_vget[OF d less.prems] have g: "vget ps k = Some (ps ! nat k)" .
  from downward_vget[OF d' less.prems] have g': "vget ?ps' k = Some (?ps' ! nat k)" .
  show ?case
  proof (cases "k = r1")
    case True
    with inr r1 have e: "?ps' ! nat k = r2" by simp
    from r1 r2 d have "vget ps r2 = Some 0" "vget ?ps' r2 = Some 0"
      by (auto simp: vget_def downward_def)
    with root_unfold[of ps r2 0] root_unfold[of ?ps' r2 0] have "root ?ps' r2 = r2" by simp
    with root_unfold[OF g'] e r2 have "root ?ps' k = r2" by simp
    moreover from root_unfold[OF g] True r1 have "root ps k = r1" by simp
    ultimately show ?thesis by simp
  next
    case False
    with less.prems r1 have "nat k \<noteq> nat r1" by auto
    then have e: "?ps' ! nat k = ps ! nat k" by simp
    show ?thesis
    proof (cases "ps ! nat k = 0")
      case True
      with root_unfold[OF g] root_unfold[OF g'] e False show ?thesis by simp
    next
      case nz: False
      from downwardD[OF d less.prems(1) inr] nz have p: "0 \<le> ps ! nat k" "ps ! nat k < k" by auto
      with less.prems have "nat (ps ! nat k) < nat k" "ps ! nat k \<le> n" by auto
      from less.hyps[OF this(1) p(1) this(2)] root_unfold[OF g] root_unfold[OF g'] e nz
      show ?thesis by simp
    qed
  qed
qed

lemma root_setRunSink:
  assumes d: "downward ps n" and a: "1 \<le> a" "a \<le> n" and s: "setRunSink a ps = Some ps'"
    and k: "0 \<le> k" "k \<le> n"
  shows "root ps' k = (if root ps k = root ps a then 1 else root ps k)"
proof -
  from a have a0: "0 \<le> a" by simp
  note ra = root_downward[OF d a0 a(2)]
  from d have n1: "1 \<le> n" by (simp add: downward_def)
  from downward_reserved[OF d] have p1: "ps ! 1 = 0" by (simp add: reserved_def)
  show ?thesis
  proof (cases "a = 1 \<or> root ps a = 1")
    case True
    have "root ps 1 = 1" using root_unfold[of ps 1 0] downward_vget[OF d _ n1] p1 by simp
    with True have r1: "root ps a = 1" by auto
    from True s ra(1) have "ps' = ps"
      by (auto simp: setRunSink_def bind_eq_Some_conv split: if_splits)
    with r1 show ?thesis by simp
  next
    case False
    with s ra(1) a have ps': "ps' = ps[nat (root ps a) := 1]"
      by (auto simp: setRunSink_def vset_Some)
    from False ra(4)[OF a(1)] have r2: "2 \<le> root ps a" by simp
    from ra(3) a have rn: "root ps a \<le> n" by simp
    from ra(5) have rz: "ps ! nat (root ps a) = 0" by (simp add: vget_Some)
    have p1': "ps ! nat 1 = 0" using p1 by simp
    have "(1::int) \<le> 1" "1 < root ps a" using r2 by simp_all
    from root_link[OF d r2 rn rz this p1' k] ps' show ?thesis by simp
  qed
qed

lemma root_run_union:
  assumes d: "downward ps n" and a: "1 \<le> a" "a \<le> n" and b: "1 \<le> b" "b \<le> n"
    and u: "run_union ps a b = Some ps'" and k: "0 \<le> k" "k \<le> n"
  shows "root ps' k = (if root ps a = root ps b then root ps k
                       else if root ps k = max (root ps a) (root ps b)
                            then min (root ps a) (root ps b) else root ps k)"
proof -
  from a b have a0: "0 \<le> a" "0 \<le> b" by simp_all
  note ra = root_downward[OF d a0(1) a(2)] and rb = root_downward[OF d a0(2) b(2)]
  from d have n1: "1 \<le> n" by (simp add: downward_def)
  from downward_reserved[OF d] have "ps ! 0 = 0" by (simp add: reserved_def)
  with downward_vget[OF d _ _, of 0] n1 have z: "vget ps 0 = Some 0" by simp
  from run_union_roots[OF z ra(1) rb(1)] u
  have ps': "ps' = (if root ps b < root ps a then ps[nat (root ps a) := root ps b]
                   else if root ps a < root ps b then ps[nat (root ps b) := root ps a] else ps)"
    by simp
  from ra(5) rb(5) have rz: "ps ! nat (root ps a) = 0" "ps ! nat (root ps b) = 0"
    by (simp_all add: vget_Some)
  from ra(3,4) rb(3,4) a b have bounds: "1 \<le> root ps a" "root ps a \<le> n" "1 \<le> root ps b" "root ps b \<le> n"
    by auto
  consider "root ps a = root ps b" | "root ps b < root ps a" | "root ps a < root ps b" by linarith
  then show ?thesis
  proof cases
    case 1
    with ps' show ?thesis by simp
  next
    case 2
    with bounds have "2 \<le> root ps a" by simp
    from root_link[OF d this bounds(2) rz(1) bounds(3) 2 rz(2) k] ps' 2 show ?thesis
      by (simp add: max_def min_def)
  next
    case 3
    with bounds have "2 \<le> root ps b" by simp
    from root_link[OF d this bounds(4) rz(2) bounds(1) 3 rz(1) k] ps' 3 show ?thesis
      by (simp add: max_def min_def)
  qed
qed

lemma conn_refl: "(x, x) \<in> conn E"
  by (simp add: conn_def)

lemma conn_sym: "(x, y) \<in> conn E \<Longrightarrow> (y, x) \<in> conn E"
proof -
  assume "(x, y) \<in> conn E"
  then have "(y, x) \<in> ((E \<union> E\<inverse>)\<^sup>*)\<inverse>" by (simp add: conn_def)
  also have "((E \<union> E\<inverse>)\<^sup>*)\<inverse> = ((E \<union> E\<inverse>)\<inverse>)\<^sup>*" by (rule rtrancl_converse[symmetric])
  also have "(E \<union> E\<inverse>)\<inverse> = E \<union> E\<inverse>" by auto
  finally show ?thesis by (simp add: conn_def)
qed

lemma conn_trans: "(x, y) \<in> conn E \<Longrightarrow> (y, z) \<in> conn E \<Longrightarrow> (x, z) \<in> conn E"
  unfolding conn_def by (rule rtrancl_trans)

lemma conn_mono: "E \<subseteq> E' \<Longrightarrow> conn E \<subseteq> conn E'"
  unfolding conn_def by (intro rtrancl_mono) auto

lemma conn_edge: "(x, y) \<in> E \<Longrightarrow> (x, y) \<in> conn E \<and> (y, x) \<in> conn E"
  unfolding conn_def by auto

lemma cc_invI:
  assumes "E \<subseteq> F \<times> F" "Sk \<subseteq> F"
    "\<And>x y. (x, y) \<in> E \<Longrightarrow> lb x = lb y"
    "\<And>x. x \<in> Sk \<Longrightarrow> lb x = 1"
    "\<And>x y. x \<in> F \<Longrightarrow> y \<in> F \<Longrightarrow> lb x = lb y \<Longrightarrow> lb x \<noteq> 1 \<Longrightarrow> (x, y) \<in> conn E"
    "\<And>x. x \<in> F \<Longrightarrow> lb x = 1 \<Longrightarrow> \<exists>z\<in>Sk. (x, z) \<in> conn E"
  shows "cc_inv F E Sk lb"
  unfolding cc_inv_def using assms by blast

lemma cc_invD:
  assumes "cc_inv F E Sk lb"
  shows "E \<subseteq> F \<times> F" "Sk \<subseteq> F"
    "\<And>x y. (x, y) \<in> E \<Longrightarrow> lb x = lb y"
    "\<And>x. x \<in> Sk \<Longrightarrow> lb x = 1"
    "\<And>x y. x \<in> F \<Longrightarrow> y \<in> F \<Longrightarrow> lb x = lb y \<Longrightarrow> lb x \<noteq> 1 \<Longrightarrow> (x, y) \<in> conn E"
    "\<And>x. x \<in> F \<Longrightarrow> lb x = 1 \<Longrightarrow> \<exists>z\<in>Sk. (x, z) \<in> conn E"
  using assms unfolding cc_inv_def by blast+

lemma cc_cong:
  assumes "cc_inv F E Sk lb" "\<And>x. x \<in> F \<Longrightarrow> lb' x = lb x"
  shows "cc_inv F E Sk lb'"
proof -
  note d = cc_invD[OF assms(1)]
  show ?thesis
  proof (rule cc_invI)
    show "E \<subseteq> F \<times> F" "Sk \<subseteq> F" by (rule d)+
    show "lb' x = lb' y" if "(x, y) \<in> E" for x y
      using d(3)[OF that] d(1) that assms(2) by auto
    show "lb' x = 1" if "x \<in> Sk" for x using d(4)[OF that] d(2) that assms(2) by auto
    show "(x, y) \<in> conn E" if "x \<in> F" "y \<in> F" "lb' x = lb' y" "lb' x \<noteq> 1" for x y
      using d(5)[OF that(1,2)] that assms(2) by auto
    show "\<exists>z\<in>Sk. (x, z) \<in> conn E" if "x \<in> F" "lb' x = 1" for x
      using d(6)[OF that(1)] that assms(2) by auto
  qed
qed

lemma cc_addfresh:
  assumes "cc_inv F E Sk lb" "c \<notin> F" "k \<noteq> 1" "\<And>x. x \<in> F \<Longrightarrow> lb x \<noteq> k"
  shows "cc_inv (insert c F) E Sk (lb(c := k))"
proof -
  note d = cc_invD[OF assms(1)]
  show ?thesis
  proof (rule cc_invI)
    show "E \<subseteq> insert c F \<times> insert c F" "Sk \<subseteq> insert c F" using d(1,2) by auto
    show "(lb(c := k)) x = (lb(c := k)) y" if "(x, y) \<in> E" for x y
      using d(3)[OF that] d(1) that assms(2) by auto
    show "(lb(c := k)) x = 1" if "x \<in> Sk" for x using d(4)[OF that] d(2) that assms(2) by auto
    show "(x, y) \<in> conn E"
      if "x \<in> insert c F" "y \<in> insert c F" "(lb(c := k)) x = (lb(c := k)) y"
         "(lb(c := k)) x \<noteq> 1" for x y
    proof (cases "x = c")
      case True
      with that assms(4)[of y] have "y = c" by (auto split: if_splits)
      with True show ?thesis by (simp add: conn_refl)
    next
      case False
      with that assms(4)[of x] have "y \<noteq> c" "x \<in> F" by (auto split: if_splits)
      with that False d(5)[of x y] show ?thesis by auto
    qed
    show "\<exists>z\<in>Sk. (x, z) \<in> conn E" if "x \<in> insert c F" "(lb(c := k)) x = 1" for x
      using that assms(3) d(6)[of x] by (auto split: if_splits)
  qed
qed

lemma conn_insert: "(x, y) \<in> conn E \<Longrightarrow> (x, y) \<in> conn (insert e E)"
  using conn_mono[of E "insert e E"] by blast

lemma cc_addto:
  assumes "cc_inv F E Sk lb" "c \<notin> F" "w \<in> F"
  shows "cc_inv (insert c F) (insert (c, w) E) Sk (lb(c := lb w))"
proof -
  note d = cc_invD[OF assms(1)]
  let ?E = "insert (c, w) E" and ?lb = "lb(c := lb w)"
  have cw: "(c, w) \<in> conn ?E" using conn_edge[of c w ?E] by simp
  from assms(2,3) have wc: "w \<noteq> c" by auto
  have labF: "?lb x = lb x" if "x \<in> F" for x using that assms(2) by auto
  have toF: "(c, y) \<in> conn ?E" if "y \<in> F" "lb w = lb y" "lb w \<noteq> 1" for y
    by (rule conn_trans[OF cw conn_insert[OF d(5)[OF assms(3) that]]])
  show ?thesis
  proof (rule cc_invI)
    show "?E \<subseteq> insert c F \<times> insert c F" using d(1) assms(3) by auto
    show "Sk \<subseteq> insert c F" using d(2) by auto
    show "?lb x = ?lb y" if "(x, y) \<in> ?E" for x y
    proof (cases "(x, y) = (c, w)")
      case True with wc show ?thesis by simp
    next
      case False
      with that have e: "(x, y) \<in> E" by blast
      with d(1) have "x \<in> F" "y \<in> F" by auto
      with d(3)[OF e] labF show ?thesis by simp
    qed
    show "?lb x = 1" if "x \<in> Sk" for x
    proof -
      from that d(2) have "x \<in> F" by auto
      with d(4)[OF that] labF show ?thesis by simp
    qed
    show "(x, y) \<in> conn ?E"
      if "x \<in> insert c F" "y \<in> insert c F" "?lb x = ?lb y" "?lb x \<noteq> 1" for x y
    proof (cases "x = c")
      case xc: True
      show ?thesis
      proof (cases "y = c")
        case True with xc show ?thesis by (simp add: conn_refl)
      next
        case False
        with that(2) have yF: "y \<in> F" by simp
        from that(3,4) xc labF[OF yF] have "lb w = lb y" "lb w \<noteq> 1" by simp_all
        from toF[OF yF this] xc show ?thesis by simp
      qed
    next
      case xc: False
      with that(1) have xF: "x \<in> F" by simp
      show ?thesis
      proof (cases "y = c")
        case True
        from that(3,4) True labF[OF xF] have "lb w = lb x" "lb w \<noteq> 1" by simp_all
        from toF[OF xF this] have "(c, x) \<in> conn ?E" .
        with True show ?thesis by (simp add: conn_sym)
      next
        case False
        with that(2) have yF: "y \<in> F" by simp
        from that(3,4) labF[OF xF] labF[OF yF] have "lb x = lb y" "lb x \<noteq> 1" by simp_all
        from conn_insert[OF d(5)[OF xF yF this]] show ?thesis .
      qed
    qed
    show "\<exists>z\<in>Sk. (x, z) \<in> conn ?E" if "x \<in> insert c F" "?lb x = 1" for x
    proof (cases "x = c")
      case True
      with that have "lb w = 1" by simp
      from d(6)[OF assms(3) this] obtain z where z: "z \<in> Sk" "(w, z) \<in> conn E" by auto
      from conn_trans[OF cw conn_insert[OF z(2)]] have "(c, z) \<in> conn ?E" .
      with z(1) True show ?thesis by auto
    next
      case False
      with that(1) have xF: "x \<in> F" by simp
      with that(2) labF have "lb x = 1" by simp
      from d(6)[OF xF this] obtain z where z: "z \<in> Sk" "(x, z) \<in> conn E" by auto
      from conn_insert[OF z(2)] z(1) show ?thesis by auto
    qed
  qed
qed

lemma cc_addsink:
  assumes "cc_inv F E Sk lb" "c \<notin> F"
  shows "cc_inv (insert c F) E (insert c Sk) (lb(c := 1))"
proof -
  note d = cc_invD[OF assms(1)]
  show ?thesis
  proof (rule cc_invI)
    show "E \<subseteq> insert c F \<times> insert c F" "insert c Sk \<subseteq> insert c F" using d(1,2) by auto
    show "(lb(c := 1)) x = (lb(c := 1)) y" if "(x, y) \<in> E" for x y
      using d(3)[OF that] d(1) that assms(2) by auto
    show "(lb(c := 1)) x = 1" if "x \<in> insert c Sk" for x
      using d(4)[of x] that by auto
    show "(x, y) \<in> conn E"
      if "x \<in> insert c F" "y \<in> insert c F" "(lb(c := 1)) x = (lb(c := 1)) y"
         "(lb(c := 1)) x \<noteq> 1" for x y
      using that d(5)[of x y] by (auto split: if_splits)
    show "\<exists>z\<in>insert c Sk. (x, z) \<in> conn E" if "x \<in> insert c F" "(lb(c := 1)) x = 1" for x
    proof (cases "x = c")
      case True
      then show ?thesis by (auto simp: conn_refl)
    next
      case False
      with that d(6)[of x] show ?thesis by auto
    qed
  qed
qed

lemma cc_edge:
  assumes "cc_inv F E Sk lb" "u \<in> F" "v \<in> F" "lb u = lb v"
  shows "cc_inv F (insert (u, v) E) Sk lb"
proof -
  note d = cc_invD[OF assms(1)]
  have mono: "conn E \<subseteq> conn (insert (u, v) E)" by (rule conn_mono) auto
  show ?thesis
  proof (rule cc_invI)
    show "insert (u, v) E \<subseteq> F \<times> F" "Sk \<subseteq> F" using d(1,2) assms(2,3) by auto
    show "lb x = lb y" if "(x, y) \<in> insert (u, v) E" for x y
      using that d(3)[of x y] assms(4) by auto
    show "lb x = 1" if "x \<in> Sk" for x by (rule d(4)[OF that])
    show "(x, y) \<in> conn (insert (u, v) E)" if "x \<in> F" "y \<in> F" "lb x = lb y" "lb x \<noteq> 1" for x y
      using d(5)[OF that] mono by auto
    show "\<exists>z\<in>Sk. (x, z) \<in> conn (insert (u, v) E)" if "x \<in> F" "lb x = 1" for x
      using d(6)[OF that] mono by auto
  qed
qed

lemma cc_link:
  assumes "cc_inv F E Sk lb" "u \<in> F" "v \<in> F" "a \<noteq> 1"
    and uv: "(lb u = a \<and> lb v = b) \<or> (lb u = b \<and> lb v = a)"
  shows "cc_inv F (insert (u, v) E) Sk (\<lambda>x. if lb x = a then b else lb x)"
proof -
  note d = cc_invD[OF assms(1)]
  let ?E = "insert (u, v) E" and ?lb = "\<lambda>x. if lb x = a then b else lb x"
  have mono: "conn E \<subseteq> conn ?E" by (rule conn_mono) auto
  from uv obtain ua ub where ab: "ua \<in> F" "ub \<in> F" "lb ua = a" "lb ub = b"
    "(ua, ub) \<in> conn ?E" "(ub, ua) \<in> conn ?E"
    using conn_edge[of u v ?E] assms(2,3) by auto
  have bridge: "(x, y) \<in> conn ?E" if "x \<in> F" "y \<in> F" "lb x = a" "lb y = b" "b \<noteq> 1" for x y
  proof -
    from d(5)[OF that(1) ab(1)] that(3) ab(3) assms(4) mono have 1: "(x, ua) \<in> conn ?E" by auto
    from d(5)[OF ab(2) that(2)] that(4,5) ab(4) mono have 2: "(ub, y) \<in> conn ?E" by auto
    from conn_trans[OF conn_trans[OF 1 ab(5)] 2] show ?thesis .
  qed
  show ?thesis
  proof (rule cc_invI)
    show "?E \<subseteq> F \<times> F" "Sk \<subseteq> F" using d(1,2) assms(2,3) by auto
    show "?lb x = ?lb y" if "(x, y) \<in> ?E" for x y
    proof (cases "(x, y) = (u, v)")
      case True
      with uv show ?thesis by auto
    next
      case False
      with that d(3)[of x y] show ?thesis by auto
    qed
    show "?lb x = 1" if "x \<in> Sk" for x using d(4)[OF that] assms(4) by simp
    show "(x, y) \<in> conn ?E" if "x \<in> F" "y \<in> F" "?lb x = ?lb y" "?lb x \<noteq> 1" for x y
    proof (cases "lb x = a")
      case xa: True
      show ?thesis
      proof (cases "lb y = a")
        case True
        with xa d(5)[OF that(1,2)] assms(4) mono show ?thesis by auto
      next
        case False
        with xa that(3,4) have "lb y = b" "b \<noteq> 1" by auto
        from bridge[OF that(1,2) xa this] show ?thesis .
      qed
    next
      case xa: False
      show ?thesis
      proof (cases "lb y = a")
        case True
        with xa that(3,4) have "lb x = b" "b \<noteq> 1" by auto
        from bridge[OF that(2,1) True this] show ?thesis by (rule conn_sym)
      next
        case False
        with xa that d(5)[OF that(1,2)] mono show ?thesis by auto
      qed
    qed
    show "\<exists>z\<in>Sk. (x, z) \<in> conn ?E" if "x \<in> F" "?lb x = 1" for x
    proof (cases "lb x = a")
      case True
      with that have b1: "b = 1" by simp
      from d(5)[OF that(1) ab(1)] True ab(3) assms(4) mono have 1: "(x, ua) \<in> conn ?E" by auto
      from d(6)[OF ab(2)] ab(4) b1 obtain z where z: "z \<in> Sk" "(ub, z) \<in> conn E" by auto
      with mono have "(ub, z) \<in> conn ?E" by auto
      from conn_trans[OF conn_trans[OF 1 ab(5)] this] z(1) show ?thesis by auto
    next
      case False
      with that d(6)[OF that(1)] mono show ?thesis by auto
    qed
  qed
qed

lemma cc_sinklink:
  assumes "cc_inv F E Sk lb" "c \<in> F"
  shows "cc_inv F E (insert c Sk) (\<lambda>x. if lb x = lb c then 1 else lb x)"
proof -
  note d = cc_invD[OF assms(1)]
  let ?lb = "\<lambda>x. if lb x = lb c then 1 else lb x"
  show ?thesis
  proof (rule cc_invI)
    show "E \<subseteq> F \<times> F" "insert c Sk \<subseteq> F" using d(1,2) assms(2) by auto
    show "?lb x = ?lb y" if "(x, y) \<in> E" for x y using d(3)[OF that] by simp
    show "?lb x = 1" if "x \<in> insert c Sk" for x using that d(4)[of x] by auto
    show "(x, y) \<in> conn E" if "x \<in> F" "y \<in> F" "?lb x = ?lb y" "?lb x \<noteq> 1" for x y
      using that d(5)[OF that(1,2)] by (auto split: if_splits)
    show "\<exists>z\<in>insert c Sk. (x, z) \<in> conn E" if "x \<in> F" "?lb x = 1" for x
    proof (cases "lb x = 1")
      case True
      from d(6)[OF that(1) this] show ?thesis by auto
    next
      case False
      with that have "lb x = lb c" by (auto split: if_splits)
      with d(5)[OF that(1) assms(2)] False show ?thesis by auto
    qed
  qed
qed

lemma cc_constant:
  assumes "cc_inv F E Sk lb" "(x, y) \<in> conn E"
  shows "lb x = lb y"
  using assms(2) unfolding conn_def
proof (induction rule: rtrancl_induct)
  case base
  show ?case by simp
next
  case (step y z)
  with cc_invD(3)[OF assms(1)] show ?case by auto
qed

lemma edges_insert:
  assumes "c \<notin> F" "(fst c + 1, snd c) \<notin> F" "(fst c, snd c + 1) \<notin> F"
  shows "edges (insert c F) =
           (if (fst c - 1, snd c) \<in> F then {(c, (fst c - 1, snd c))} else {}) \<union>
           (if (fst c, snd c - 1) \<in> F then {(c, (fst c, snd c - 1))} else {}) \<union> edges F"
proof (intro set_eqI iffI)
  fix e assume e: "e \<in> edges (insert c F)"
  obtain x y where xy: "e = (x, y)" by (cases e)
  from e xy have a: "x \<in> insert c F" "y \<in> insert c F"
    "y = (fst x - 1, snd x) \<or> y = (fst x, snd x - 1)" by (auto simp: edges_def)
  have yc: "y \<noteq> c \<or> x \<notin> F"
  proof (rule ccontr)
    assume "\<not> (y \<noteq> c \<or> x \<notin> F)"
    then have "y = c" "x \<in> F" by auto
    with a(3) have "x = (fst c + 1, snd c) \<or> x = (fst c, snd c + 1)" by (cases x) auto
    with \<open>x \<in> F\<close> assms(2,3) show False by auto
  qed
  have xyc: "\<not> (x = c \<and> y = c)" using a(3) by (cases c) auto
  show "e \<in> (if (fst c - 1, snd c) \<in> F then {(c, (fst c - 1, snd c))} else {}) \<union>
           (if (fst c, snd c - 1) \<in> F then {(c, (fst c, snd c - 1))} else {}) \<union> edges F"
  proof (cases "x = c")
    case True
    with xyc a(2) have "y \<in> F" by auto
    with True a(3) xy show ?thesis by auto
  next
    case False
    with a(1) have xF: "x \<in> F" by simp
    with yc a(2) have "y \<in> F" by auto
    with xF a(3) xy show ?thesis by (simp add: edges_def)
  qed
next
  fix e assume e: "e \<in> (if (fst c - 1, snd c) \<in> F then {(c, (fst c - 1, snd c))} else {}) \<union>
           (if (fst c, snd c - 1) \<in> F then {(c, (fst c, snd c - 1))} else {}) \<union> edges F"
  then consider "(fst c - 1, snd c) \<in> F" "e = (c, (fst c - 1, snd c))"
    | "(fst c, snd c - 1) \<in> F" "e = (c, (fst c, snd c - 1))" | "e \<in> edges F"
    by (auto split: if_splits)
  then show "e \<in> edges (insert c F)"
  proof cases
    case 1 then show ?thesis by (simp add: edges_def)
  next
    case 2 then show ?thesis by (simp add: edges_def)
  next
    case 3 then show ?thesis by (auto simp: edges_def)
  qed
qed

lemma sinks_insert:
  "sinks e m0 (insert c F) =
     (if e = SinkCC \<and> m0 c = 1 then insert c (sinks e m0 F) else sinks e m0 F)"
  by (auto simp: sinks_def)

text \<open>The union with the run of the south neighbour, read on the labels.\<close>

lemma cc_south:
  assumes d: "downward ps n" and inv: "cc_inv F E Sk (\<lambda>x. root ps (m x))"
    and c: "c \<in> F" and s: "s \<in> F"
    and bnd: "\<And>x. x \<in> F \<Longrightarrow> 1 \<le> m x \<and> m x \<le> n"
    and u: "run_union ps (m s) (m c) = Some ps'"
  shows "cc_inv F (insert (c, s) E) Sk (\<lambda>x. root ps' (m x))"
proof -
  let ?ra = "root ps (m s)" and ?rb = "root ps (m c)"
  from bnd[OF s] bnd[OF c] have b: "1 \<le> m s" "m s \<le> n" "1 \<le> m c" "m c \<le> n" by auto
  have r: "root ps' (m x) = (if ?ra = ?rb then root ps (m x)
                       else if root ps (m x) = max ?ra ?rb then min ?ra ?rb else root ps (m x))"
    if "x \<in> F" for x
  proof -
    from bnd[OF that] have "0 \<le> m x" "m x \<le> n" by auto
    from root_run_union[OF d b u this] show ?thesis .
  qed
  from b have b0: "0 \<le> m s" "0 \<le> m c" by auto
  from root_downward(4)[OF d b0(1) b(2) b(1)] root_downward(4)[OF d b0(2) b(4) b(3)]
  have r1: "1 \<le> ?ra" "1 \<le> ?rb" .
  show ?thesis
  proof (cases "?ra = ?rb")
    case True
    from cc_edge[OF inv c s] True
    have "cc_inv F (insert (c, s) E) Sk (\<lambda>x. root ps (m x))" by simp
    then show ?thesis
    proof (rule cc_cong)
      fix x assume "x \<in> F"
      from r[OF this] True show "root ps' (m x) = root ps (m x)" by simp
    qed
  next
    case False
    with r1 have a1: "max ?ra ?rb \<noteq> 1" by (auto simp: max_def)
    from False have uv: "(root ps (m c) = max ?ra ?rb \<and> root ps (m s) = min ?ra ?rb) \<or>
                         (root ps (m c) = min ?ra ?rb \<and> root ps (m s) = max ?ra ?rb)"
      by (auto simp: max_def min_def)
    from cc_link[OF inv c s a1 uv]
    have "cc_inv F (insert (c, s) E) Sk
            (\<lambda>x. if root ps (m x) = max ?ra ?rb then min ?ra ?rb else root ps (m x))" .
    then show ?thesis
    proof (rule cc_cong)
      fix x assume "x \<in> F"
      from r[OF this] False
      show "root ps' (m x) = (if root ps (m x) = max ?ra ?rb then min ?ra ?rb else root ps (m x))"
        by simp
    qed
  qed
qed

text \<open>Repointing the root of the current run to the sink root, read on the labels.\<close>

lemma cc_sink:
  assumes d: "downward ps n" and inv: "cc_inv F E Sk (\<lambda>x. root ps (m x))"
    and c: "c \<in> F"
    and bnd: "\<And>x. x \<in> F \<Longrightarrow> 1 \<le> m x \<and> m x \<le> n"
    and s: "setRunSink (m c) ps = Some ps'"
  shows "cc_inv F E (insert c Sk) (\<lambda>x. root ps' (m x))"
proof -
  from bnd[OF c] have b: "1 \<le> m c" "m c \<le> n" by auto
  from cc_sinklink[OF inv c]
  have "cc_inv F E (insert c Sk) (\<lambda>x. if root ps (m x) = root ps (m c) then 1 else root ps (m x))" .
  then show ?thesis
  proof (rule cc_cong)
    fix x assume "x \<in> F"
    from bnd[OF this] have "0 \<le> m x" "m x \<le> n" by auto
    from root_setRunSink[OF d b s this]
    show "root ps' (m x) = (if root ps (m x) = root ps (m c) then 1 else root ps (m x))" .
  qed
qed

subsection \<open>What the scan reads at the neighbours of the cell it visits\<close>

lemma south_fg_iff:
  assumes P: "points g = done @ c # rest" and G: "geom fg m0 done st"
    and Pr: "prepared g fg m0"
  shows "south_fg g st (fst c) (snd c) \<longleftrightarrow> (fst c, snd c - 1) \<in> fgset fg done"
proof (cases "j_local_first g < snd c")
  case False
  note p = points_split[OF P]
  have "(fst c, snd c - 1) \<notin> set done"
  proof
    assume "(fst c, snd c - 1) \<in> set done"
    with p(5) have "owned g (fst c, snd c - 1)" by auto
    with False show False by (simp add: owned_def)
  qed
  with False show ?thesis by (simp add: south_fg_def fgset_def)
next
  case True
  let ?s = "(fst c, snd c - 1)"
  from points_south[OF P True] have s: "?s \<in> set done" .
  show ?thesis
  proof (cases "?s \<in> fgset fg done")
    case fs: True
    from geomD_fg(1)[OF G this] True fs show ?thesis by (simp add: south_fg_def)
  next
    case fs: False
    from geomD_bg[OF G this] have e: "mask_run st ?s = m0 ?s" .
    from fs s have nf: "\<not> fg (fst ?s) (snd ?s)" by (simp add: fgset_def)
    from points_split(5)[OF P] s have "owned g ?s" by auto
    with Pr nf have "m0 ?s \<le> 0" unfolding prepared_def by blast
    with e fs show ?thesis by (simp add: south_fg_def)
  qed
qed

lemma west_in_iff:
  assumes P: "points g = done @ c # rest" and G: "geom fg m0 done st"
    and W: "west_prepared g fg m0" and fc: "fg (fst c) (snd c)"
  shows "west_fg g st (fst c) (snd c) \<longleftrightarrow> (fst c - 1, snd c) \<in> fgset fg done"
proof (cases "i_local_first g < fst c")
  case True
  from points_west[OF P True] have "(fst c - 1, snd c) \<in> set done" by (metis last_in_set)
  with west_fg_iff[OF P G W fc] True show ?thesis by (simp add: fgset_def)
next
  case False
  have "(fst c - 1, snd c) \<notin> set done"
  proof
    assume "(fst c - 1, snd c) \<in> set done"
    with points_split(5)[OF P] have "owned g (fst c - 1, snd c)" by auto
    with False show False by (simp add: owned_def)
  qed
  with west_fg_iff[OF P G W fc] False show ?thesis by (simp add: fgset_def)
qed

lemma west_mask:
  assumes P: "points g = done @ c # rest" and G: "geom fg m0 done st"
    and w: "(fst c - 1, snd c) \<in> fgset fg done"
  shows "mask_run st (fst c - 1, snd c) = run_number st"
proof -
  let ?L = "lists st" and ?n = "run_number st" and ?w = "(fst c - 1, snd c)"
  from w have wd: "?w \<in> set done" by (simp add: fgset_def)
  with points_split(5)[OF P] have "owned g ?w" by auto
  then have "i_local_first g < fst c" by (simp add: owned_def)
  from points_west[OF P this] have ld: "done \<noteq> []" "last done = ?w" by auto
  from w ld(2) have lf: "last done \<in> fgset fg done" by simp
  from geomD_last[OF G ld(1) lf] ld(2)
  have n2: "2 \<le> ?n" and we: "?w = (i_vec ?L ! nat ?n + lengths ?L ! nat ?n - 1, j_vec ?L ! nat ?n)"
    by auto
  from geomD_run(1)[OF G n2] have len: "1 \<le> lengths ?L ! nat ?n" by simp
  have "?w = (i_vec ?L ! nat ?n + (lengths ?L ! nat ?n - 1), j_vec ?L ! nat ?n) \<and>
        0 \<le> lengths ?L ! nat ?n - 1 \<and> lengths ?L ! nat ?n - 1 < lengths ?L ! nat ?n"
    using we len by simp
  then have "?w \<in> run_cells ?L ?n" unfolding run_cells_def by blast
  from geomD_run(2)[OF G n2 _ this] show ?thesis by simp
qed

lemma sink_here_iff:
  assumes P: "points g = done @ c # rest" and G: "geom fg m0 done st"
  shows "sink_here e st (fst c) (snd c) \<longleftrightarrow> e = SinkCC \<and> m0 c = 1"
proof -
  from points_split(2)[OF P] have "c \<notin> fgset fg done" by (simp add: fgset_def)
  from geomD_bg[OF G this] show ?thesis by (simp add: sink_here_def SinkCond_def)
qed

lemma south_bound:
  assumes P: "points g = done @ c # rest" and G: "geom fg m0 done st"
    and Pr: "prepared g fg m0" and j: "j_local_first g < snd c"
  shows "mask_run st (fst c, snd c - 1) \<le> run_number st"
proof (cases "(fst c, snd c - 1) \<in> fgset fg done")
  case True
  from geomD_fg(2)[OF G this] show ?thesis .
next
  case False
  with south_fg_iff[OF P G Pr] j have "mask_run st (fst c, snd c - 1) \<le> 0"
    by (simp add: south_fg_def)
  with geomD(1)[OF G] show ?thesis by simp
qed

subsection \<open>One foreground cell of the scan, read on the labels\<close>

lemma root_one:
  assumes "downward ps n"
  shows "root ps 1 = 1"
proof -
  from assms have n1: "1 \<le> n" by (simp add: downward_def)
  from downward_reserved[OF assms] have "ps ! nat 1 = 0" by (simp add: reserved_def)
  with downward_vget[OF assms _ n1] have "vget ps 1 = Some 0" by simp
  from root_unfold[OF this] show ?thesis by simp
qed

lemma pixel_labels:
  assumes P: "points g = done @ c # rest" and I: "full_inv e fg m0 done st"
    and Pr: "prepared g fg m0" and fc: "fg (fst c) (snd c)"
    and C: "checkForegroundPixel e g (fst c) (snd c) st = Some st1"
  shows "downward (parents (lists st1)) (run_number st1) \<and>
         cc_inv (insert c (fgset fg done)) (edges (insert c (fgset fg done)))
                (sinks e m0 (insert c (fgset fg done)))
                (\<lambda>x. root (parents (lists st1)) (((mask_run st)(c := run_number st1)) x))"
proof -
  let ?F = "fgset fg done" and ?ps = "parents (lists st)" and ?n = "run_number st"
  let ?m = "mask_run st"
  let ?W = "(fst c - 1, snd c)" and ?S = "(fst c, snd c - 1)"
  let ?n1 = "run_number st1" and ?ps2 = "parents (lists st1)"
  let ?m' = "?m(c := ?n1)"
  let ?F1 = "insert c ?F"
  let ?Sk = "sinks e m0 ?F" and ?Sk1 = "sinks e m0 ?F1"
  let ?lab = "\<lambda>x. root ?ps (?m x)"
  from I have G: "geom fg m0 done st" and wf: "wf_lists st" and cp: "cap st"
    and inv: "cc_inv ?F (edges ?F) ?Sk (lab st)" by (simp_all add: full_inv_def)
  from wf have d: "downward ?ps ?n" and sz: "sized st" by (simp_all add: wf_lists_def)
  from d have n1: "1 \<le> ?n" by (simp add: downward_def)
  note W = prepared_west[OF Pr]
  note p = points_split[OF P]
  have cnF: "c \<notin> ?F" using p(2) by (simp add: fgset_def)
  from points_later[OF P] have later: "(fst c + 1, snd c) \<notin> ?F" "(fst c, snd c + 1) \<notin> ?F"
    by (simp_all add: fgset_def)
  note wi = west_in_iff[OF P G W fc] and si = south_fg_iff[OF P G Pr]
    and sk = sink_here_iff[OF P G, of e]
  have lab_eq: "lab st = ?lab" by (simp add: lab_def fun_eq_iff)
  from inv have inv0: "cc_inv ?F (edges ?F) ?Sk ?lab" unfolding lab_eq .
  have bF: "2 \<le> ?m x \<and> ?m x \<le> ?n" if "x \<in> ?F" for x using geomD_fg[OF G that] by simp
  from checkForegroundPixel_effect[OF C] obtain ps1 where
    a: "if west_fg g st (fst c) (snd c)
       then run_number st1 = run_number st \<and>
            lengths (lists st1) = (lengths (lists st))[nat (run_number st) :=
                                     lengths (lists st) ! nat (run_number st) + 1] \<and>
            i_vec (lists st1) = i_vec (lists st) \<and> j_vec (lists st1) = j_vec (lists st) \<and>
            0 \<le> run_number st \<and> run_number st < int (length (lengths (lists st))) \<and>
            (if sink_here e st (fst c) (snd c)
             then setRunSink (run_number st) (parents (lists st)) = Some ps1
             else ps1 = parents (lists st))
       else run_number st1 = run_number st + 1 \<and>
            0 \<le> run_number st + 1 \<and> run_number st + 1 < int (length (parents (lists st))) \<and>
            lengths (lists st1) = (lengths (lists st))[nat (run_number st + 1) := 1] \<and>
            i_vec (lists st1) = (i_vec (lists st))[nat (run_number st + 1) := fst c] \<and>
            j_vec (lists st1) = (j_vec (lists st))[nat (run_number st + 1) := snd c] \<and>
            ps1 = (parents (lists st))[nat (run_number st + 1) :=
                     (if sink_here e st (fst c) (snd c) then 1
                      else if south_fg g st (fst c) (snd c)
                           then mask_run st (fst c, snd c - 1) else 0)]"
    and b: "if south_fg g st (fst c) (snd c)
       then run_union ps1 (mask_run st (fst c, snd c - 1)) (run_number st1)
              = Some (parents (lists st1))
       else parents (lists st1) = ps1"
    by blast
  define E1 where "E1 = (if ?W \<in> ?F then insert (c, ?W) (edges ?F)
                         else if ?S \<in> ?F \<and> \<not> (e = SinkCC \<and> m0 c = 1)
                              then insert (c, ?S) (edges ?F) else edges ?F)"
  have ph1: "downward ps1 ?n1 \<and> ?n \<le> ?n1 \<and> 2 \<le> ?n1 \<and>
             cc_inv ?F1 E1 ?Sk1 (\<lambda>x. root ps1 (?m' x))"
  proof (cases "west_fg g st (fst c) (snd c)")
    case True
    with wi have WF: "?W \<in> ?F" by simp
    from a have a': "run_number st1 = run_number st \<and>
            (if sink_here e st (fst c) (snd c)
             then setRunSink (run_number st) (parents (lists st)) = Some ps1
             else ps1 = parents (lists st))"
      unfolding if_P[OF True] by blast
    then have n1e: "?n1 = ?n" by blast
    from west_mask[OF P G WF] have mW: "?m ?W = ?n" .
    from bF[OF WF] mW have n2: "2 \<le> ?n" by simp
    have E1e: "E1 = insert (c, ?W) (edges ?F)" using WF by (simp add: E1_def)
    from cc_addto[OF inv0 cnF WF]
    have "cc_inv ?F1 E1 ?Sk (?lab(c := ?lab ?W))" unfolding E1e .
    then have A: "cc_inv ?F1 E1 ?Sk (\<lambda>x. root ?ps (?m' x))"
    proof (rule cc_cong)
      fix x assume "x \<in> ?F1"
      show "root ?ps (?m' x) = (?lab(c := ?lab ?W)) x" using mW n1e by simp
    qed
    have bnd1: "1 \<le> ?m' x \<and> ?m' x \<le> ?n" if "x \<in> ?F1" for x
    proof (cases "x = c")
      case True with n1e n1 show ?thesis by simp
    next
      case False
      with that have "x \<in> ?F" by simp
      from bF[OF this] False show ?thesis by simp
    qed
    have cF1: "c \<in> ?F1" by simp
    show ?thesis
    proof (cases "sink_here e st (fst c) (snd c)")
      case s: True
      with a' have "setRunSink ?n ?ps = Some ps1" by simp
      then have s': "setRunSink (?m' c) ?ps = Some ps1" using n1e by simp
      from setRunSink_downward[OF d n1 order_refl] s' n1e
      have d1: "downward ps1 ?n" using \<open>setRunSink ?n ?ps = Some ps1\<close> by auto
      from s sk have isk: "e = SinkCC \<and> m0 c = 1" by blast
      have Sk: "?Sk1 = insert c ?Sk" unfolding sinks_insert if_P[OF isk] ..
      from cc_sink[OF d A cF1 bnd1 s']
      have "cc_inv ?F1 E1 ?Sk1 (\<lambda>x. root ps1 (?m' x))" unfolding Sk .
      moreover from d1 n1e have "downward ps1 ?n1" by simp
      moreover from n1e n2 have "?n \<le> ?n1" "2 \<le> ?n1" by simp_all
      ultimately show ?thesis by blast
    next
      case s: False
      with a' have "ps1 = ?ps" by simp
      moreover from s sk have nsk: "\<not> (e = SinkCC \<and> m0 c = 1)" by blast
      have "?Sk1 = ?Sk" unfolding sinks_insert if_not_P[OF nsk] ..
      ultimately have "cc_inv ?F1 E1 ?Sk1 (\<lambda>x. root ps1 (?m' x))" "downward ps1 ?n1"
        using A d n1e by simp_all
      moreover from n1e n2 have "?n \<le> ?n1" "2 \<le> ?n1" by simp_all
      ultimately show ?thesis by blast
    qed
  next
    case False
    with wi have WF: "?W \<notin> ?F" by simp
    let ?p = "if sink_here e st (fst c) (snd c) then 1
              else if south_fg g st (fst c) (snd c) then ?m ?S else 0"
    from a have a': "run_number st1 = run_number st + 1 \<and>
            run_number st + 1 < int (length (parents (lists st))) \<and>
            ps1 = (parents (lists st))[nat (run_number st + 1) := ?p]"
      unfolding if_not_P[OF False] by blast
    then have n1e: "?n1 = ?n + 1" and cap': "?n + 1 < int (length ?ps)"
      and ps1: "ps1 = ?ps[nat (?n + 1) := ?p]" by blast+
    have pb: "0 \<le> ?p" "?p \<le> ?n"
    proof -
      have "0 \<le> ?p \<and> ?p \<le> ?n"
      proof (cases "sink_here e st (fst c) (snd c)")
        case True with n1 show ?thesis by simp
      next
        case s: False
        show ?thesis
        proof (cases "south_fg g st (fst c) (snd c)")
          case True
          with si have "?S \<in> ?F" by simp
          from bF[OF this] s True show ?thesis by simp
        next
          case False with s n1 show ?thesis by simp
        qed
      qed
      then show "0 \<le> ?p" "?p \<le> ?n" by blast+
    qed
    from downward_new[OF d cap' pb] ps1 have d1: "downward ps1 (?n + 1)" by simp
    note rn = root_new[OF d cap' pb]
    have old: "root ps1 (?m' x) = ?lab x" if "x \<in> ?F" for x
    proof -
      from that cnF have "x \<noteq> c" by auto
      moreover from bF[OF that] have "0 \<le> ?m x" "?m x \<le> ?n" by auto
      from rn(1)[OF this] ps1 have "root ps1 (?m x) = root ?ps (?m x)" by simp
      ultimately show ?thesis by simp
    qed
    have new: "root ps1 (?m' c) = (if ?p = 0 then ?n + 1 else root ?ps ?p)"
      using rn(2) ps1 n1e by simp
    have cong: "cc_inv ?F1 E ?Sk1 (\<lambda>x. root ps1 (?m' x))"
      if "cc_inv ?F1 E ?Sk1 (?lab(c := v))" "v = (if ?p = 0 then ?n + 1 else root ?ps ?p)" for E v
      using that(1)
    proof (rule cc_cong)
      fix x assume x: "x \<in> ?F1"
      show "root ps1 (?m' x) = (?lab(c := v)) x"
      proof (cases "x = c")
        case True with new that(2) show ?thesis by simp
      next
        case False
        with x have "x \<in> ?F" by simp
        from old[OF this] False show ?thesis by simp
      qed
    qed
    have "cc_inv ?F1 E1 ?Sk1 (\<lambda>x. root ps1 (?m' x))"
    proof (cases "sink_here e st (fst c) (snd c)")
      case s: True
      with sk have isk: "e = SinkCC \<and> m0 c = 1" by blast
      have Sk: "?Sk1 = insert c ?Sk" unfolding sinks_insert if_P[OF isk] ..
      have E: "E1 = edges ?F" using WF isk by (simp add: E1_def)
      from cc_addsink[OF inv0 cnF] have "cc_inv ?F1 E1 ?Sk1 (?lab(c := 1))" unfolding Sk E .
      then show ?thesis
      proof (rule cong)
        from s root_one[OF d] show "1 = (if ?p = 0 then ?n + 1 else root ?ps ?p)" by simp
      qed
    next
      case s: False
      with sk have nsk: "\<not> (e = SinkCC \<and> m0 c = 1)" by blast
      have Sk: "?Sk1 = ?Sk" unfolding sinks_insert if_not_P[OF nsk] ..
      show ?thesis
      proof (cases "south_fg g st (fst c) (snd c)")
        case True
        with si have SF: "?S \<in> ?F" by simp
        with WF nsk have E: "E1 = insert (c, ?S) (edges ?F)" by (simp add: E1_def)
        from cc_addto[OF inv0 cnF SF] have "cc_inv ?F1 E1 ?Sk1 (?lab(c := ?lab ?S))"
          unfolding Sk E .
        then show ?thesis
        proof (rule cong)
          from bF[OF SF] s True show "?lab ?S = (if ?p = 0 then ?n + 1 else root ?ps ?p)" by simp
        qed
      next
        case False
        with si have SF: "?S \<notin> ?F" by simp
        with WF have E: "E1 = edges ?F" by (simp add: E1_def)
        have fresh: "?lab x \<noteq> ?n + 1" if "x \<in> ?F" for x
        proof -
          from bF[OF that] have "0 \<le> ?m x" "?m x \<le> ?n" by auto
          from root_downward(3)[OF d this] this(2) show ?thesis by simp
        qed
        from n1 have "?n + 1 \<noteq> 1" by simp
        from cc_addfresh[OF inv0 cnF this fresh]
        have "cc_inv ?F1 E1 ?Sk1 (?lab(c := ?n + 1))" unfolding Sk E .
        then show ?thesis
        proof (rule cong)
          from s False show "?n + 1 = (if ?p = 0 then ?n + 1 else root ?ps ?p)" by simp
        qed
      qed
    qed
    moreover from d1 n1e have "downward ps1 ?n1" by simp
    moreover from n1e n1 have "?n \<le> ?n1" "2 \<le> ?n1" by simp_all
    ultimately show ?thesis by blast
  qed
  then have d1: "downward ps1 ?n1" and nn: "?n \<le> ?n1" and n12: "2 \<le> ?n1"
    and inv1: "cc_inv ?F1 E1 ?Sk1 (\<lambda>x. root ps1 (?m' x))" by blast+
  have bnd: "1 \<le> ?m' x \<and> ?m' x \<le> ?n1" if "x \<in> ?F1" for x
  proof (cases "x = c")
    case True with n12 show ?thesis by simp
  next
    case False
    with that have "x \<in> ?F" by simp
    from bF[OF this] False nn show ?thesis by simp
  qed
  note ei = edges_insert[OF cnF later]
  show ?thesis
  proof (cases "south_fg g st (fst c) (snd c)")
    case True
    with si have SF: "?S \<in> ?F" by simp
    with cnF have Sc: "?S \<noteq> c" by auto
    from b have "run_union ps1 (?m ?S) ?n1 = Some ?ps2" unfolding if_P[OF True] .
    with Sc have u: "run_union ps1 (?m' ?S) (?m' c) = Some ?ps2" by simp
    have cF1: "c \<in> ?F1" and SF1: "?S \<in> ?F1" using SF by simp_all
    from bnd[OF SF1] bnd[OF cF1] have bb: "1 \<le> ?m' ?S" "?m' ?S \<le> ?n1" "1 \<le> ?m' c" "?m' c \<le> ?n1"
      by blast+
    from run_union_downward[OF d1 bb] u have d2: "downward ?ps2 ?n1" by auto
    have "insert (c, ?S) E1 = edges ?F1" using SF by (auto simp: E1_def ei)
    with cc_south[OF d1 inv1 cF1 SF1 bnd u]
    have "cc_inv ?F1 (edges ?F1) ?Sk1 (\<lambda>x. root ?ps2 (?m' x))" by simp
    with d2 show ?thesis by blast
  next
    case False
    with si have SF: "?S \<notin> ?F" by simp
    from b have e2: "?ps2 = ps1" unfolding if_not_P[OF False] .
    have "E1 = edges ?F1" using SF by (auto simp: E1_def ei)
    with inv1 e2 have "cc_inv ?F1 (edges ?F1) ?Sk1 (\<lambda>x. root ?ps2 (?m' x))" by simp
    moreover from d1 e2 have "downward ?ps2 ?n1" by simp
    ultimately show ?thesis by blast
  qed
qed

subsection \<open>The scan keeps labels and components in step\<close>

lemma lab_grow:
  assumes d: "downward (parents (lists s)) (run_number s)" and sz: "sized s"
    and ym: "0 \<le> ym g" and x: "0 \<le> mask_run s x" "mask_run s x \<le> run_number s"
  shows "lab (grow g s) x = lab s x"
proof (cases "run_number s + 1 \<ge> max_items s")
  case False
  then show ?thesis by (simp add: grow_def)
next
  case True
  from sz have "int (length (parents (lists s))) = max_items s" by (simp add: sized_def)
  with ym have "length (parents (lists s)) \<le> nat (max_items s + ym g)" by linarith
  from root_resize[OF d this x] True show ?thesis
    by (simp add: grow_def lab_def resizeLists_def)
qed

lemma full_step:
  assumes P: "points g = done @ c # rest" and I: "full_inv e fg m0 done st"
    and Pr: "prepared g fg m0"
  shows "\<exists>st'. scan_step e g fg c st = Some st' \<and> full_inv e fg m0 (done @ [c]) st'"
proof (cases "fg (fst c) (snd c)")
  case False
  from I have G: "geom fg m0 done st" by (simp add: full_inv_def)
  from False have f: "fgset fg (done @ [c]) = fgset fg done" by (simp add: fgset_snoc)
  from geom_skip[where fg = fg and c = c, OF G False] I
  have "full_inv e fg m0 (done @ [c]) st" unfolding full_inv_def f by blast
  with scan_step_bg[where fg = fg and c = c, OF False, of e g st] show ?thesis by simp
next
  case True
  let ?F1 = "insert c (fgset fg done)"
  from I have G: "geom fg m0 done st" and wf: "wf_lists st" and cp: "cap st"
    by (simp_all add: full_inv_def)
  note W = prepared_west[OF Pr]
  from points_split(1)[OF P] owned_ym[of g c] have ym: "1 \<le> ym g" by simp
  have "\<exists>st'. scan_step e g fg c st = Some st' \<and> wf_lists st' \<and> (cap st \<longrightarrow> cap st') \<and>
           run_number st \<le> run_number st' \<and> run_number st' \<le> run_number st + 1 \<and>
           mask_run st' = (if fg (fst c) (snd c) then (mask_run st)(c := run_number st')
                           else mask_run st)"
    by (rule scan_step_wf[OF wf ym]) (rule cp, rule south_bound[OF P G Pr])
  then obtain st' where S: "scan_step e g fg c st = Some st'" and wf': "wf_lists st'"
    and cp': "cap st'" using cp by blast
  from S scan_step_fg[where fg = fg and c = c, OF True, of e g st] obtain st1 where
    C: "checkForegroundPixel e g (fst c) (snd c) st = Some st1"
    and st': "st' = grow g (st1\<lparr>mask_run := (mask_run st1)(c := run_number st1)\<rparr>)"
    by auto
  let ?s2 = "st1\<lparr>mask_run := (mask_run st1)(c := run_number st1)\<rparr>"
  from checkForegroundPixel_effect[OF C] have m1: "mask_run st1 = mask_run st" by blast
  from wf have sz: "sized st" by (simp add: wf_lists_def)
  from checkForegroundPixel_sized[OF C sz] have sz2: "sized ?s2" by (simp add: sized_def)
  note G' = geom_step[OF P G W S]
  from pixel_labels[OF P I Pr True C] have
    d1: "downward (parents (lists st1)) (run_number st1)" and
    inv1: "cc_inv ?F1 (edges ?F1) (sinks e m0 ?F1)
             (\<lambda>x. root (parents (lists st1)) (((mask_run st)(c := run_number st1)) x))"
    by blast+
  have fs: "fgset fg (done @ [c]) = ?F1" using True by (simp add: fgset_snoc)
  have G2: "geom fg m0 (done @ [c]) ?s2"
  proof -
    show ?thesis
    proof (cases "west_fg g st (fst c) (snd c)")
      case w: True
      from checkForegroundPixel_effect[OF C] have
        b: "run_number st1 = run_number st \<and>
            lengths (lists st1) = (lengths (lists st))[nat (run_number st) :=
                                     lengths (lists st) ! nat (run_number st) + 1] \<and>
            i_vec (lists st1) = i_vec (lists st) \<and> j_vec (lists st1) = j_vec (lists st)"
        and mx: "max_items st1 = max_items st"
        unfolding if_P[OF w] by blast+
      from w west_fg_iff[OF P G W True] have w': "i_local_first g < fst c" "fg (fst c - 1) (snd c)"
        by auto
      from b have bb: "run_number st1 = run_number st"
            "lengths (lists st1) = (lengths (lists st))[nat (run_number st) :=
                                     lengths (lists st) ! nat (run_number st) + 1]"
            "i_vec (lists st1) = i_vec (lists st)" "j_vec (lists st1) = j_vec (lists st)"
        by blast+
      show ?thesis
        by (rule geom_continue[OF P G True w' bb(1) checkForegroundPixel_sized[OF C sz] mx bb(2,3,4)])
           (simp add: m1 bb(1))
    next
      case w: False
      from checkForegroundPixel_effect[OF C] have
        b: "run_number st1 = run_number st + 1 \<and>
            0 \<le> run_number st + 1 \<and> run_number st + 1 < int (length (parents (lists st))) \<and>
            lengths (lists st1) = (lengths (lists st))[nat (run_number st + 1) := 1] \<and>
            i_vec (lists st1) = (i_vec (lists st))[nat (run_number st + 1) := fst c] \<and>
            j_vec (lists st1) = (j_vec (lists st))[nat (run_number st + 1) := snd c]"
        and mx: "max_items st1 = max_items st"
        unfolding if_not_P[OF w] by blast+
      from b have bb: "run_number st1 = run_number st + 1"
            "run_number st + 1 < int (length (parents (lists st)))"
            "lengths (lists st1) = (lengths (lists st))[nat (run_number st + 1) := 1]"
            "i_vec (lists st1) = (i_vec (lists st))[nat (run_number st + 1) := fst c]"
            "j_vec (lists st1) = (j_vec (lists st))[nat (run_number st + 1) := snd c]"
        by blast+
      from bb(2) sz have cap: "run_number st + 1 < max_items st" by (simp add: sized_def)
      show ?thesis
        by (rule geom_new[OF P G True bb(1) checkForegroundPixel_sized[OF C sz] mx cap bb(3,4,5)])
           (simp add: m1 bb(1))
    qed
  qed
  have d2: "downward (parents (lists ?s2)) (run_number ?s2)" using d1 by simp
  have "cc_inv ?F1 (edges ?F1) (sinks e m0 ?F1) (lab st')"
    using inv1
  proof (rule cc_cong)
    fix x assume x: "x \<in> ?F1"
    with fs have "x \<in> fgset fg (done @ [c])" by simp
    from geomD_fg(1,2)[OF G2 this] have "0 \<le> mask_run ?s2 x" "mask_run ?s2 x \<le> run_number ?s2"
      by simp_all
    from lab_grow[OF d2 sz2 _ this, of g] ym st'
    have "lab st' x = lab ?s2 x" by simp
    also have "\<dots> = root (parents (lists st1)) (((mask_run st)(c := run_number st1)) x)"
      by (simp add: lab_def m1)
    finally show "lab st' x = root (parents (lists st1)) (((mask_run st)(c := run_number st1)) x)" .
  qed
  with G' wf' cp' have "full_inv e fg m0 (done @ [c]) st'" unfolding full_inv_def fs by blast
  with S show ?thesis by blast
qed

lemma full_scan:
  assumes "points g = done @ cs @ rest" "full_inv e fg m0 done st" "prepared g fg m0"
  shows "\<exists>st'. scan e g fg cs st = Some st' \<and> full_inv e fg m0 (done @ cs) st'"
  using assms(1,2)
proof (induction cs arbitrary: "done" st)
  case Nil
  then show ?case by simp
next
  case (Cons c cs)
  from Cons.prems(1) have P: "points g = done @ c # (cs @ rest)" by simp
  from full_step[OF P Cons.prems(2) assms(3)] obtain st1 where
    st1: "scan_step e g fg c st = Some st1" "full_inv e fg m0 (done @ [c]) st1" by blast
  from Cons.prems(1) have "points g = (done @ [c]) @ cs @ rest" by simp
  from Cons.IH[OF this st1(2)] obtain st' where
    "scan e g fg cs st1 = Some st'" "full_inv e fg m0 ((done @ [c]) @ cs) st'" by blast
  with st1(1) show ?case by simp
qed

lemma full_initial:
  assumes "initial sz m0 = Some st0" "3 \<le> sz"
  shows "full_inv e fg m0 [] st0"
proof -
  note i = initial_wf[OF assms(1)]
  from i(3,5) assms(2) have "cap st0" by (simp add: cap_def)
  moreover have "cc_inv {} (edges {}) (sinks e m0 {}) (lab st0)"
    by (rule cc_invI) (simp_all add: edges_def sinks_def)
  ultimately show ?thesis using geom_initial[OF assms(1), of fg] i(1)
    by (simp add: full_inv_def fgset_def)
qed

lemma full_points:
  assumes "initial sz m0 = Some st0" "3 \<le> sz" "prepared g fg m0"
  shows "\<exists>st. scan e g fg (points g) st0 = Some st \<and> full_inv e fg m0 (points g) st"
proof -
  have "points g = [] @ points g @ []" by simp
  from full_scan[OF this full_initial[OF assms(1,2)] assms(3)] show ?thesis by simp
qed

lemma fg_cells_fgset: "fgset fg (points g) = fg_cells g fg"
  by (simp add: fgset_points fg_cells_def)

lemma conn_edges: "conn (edges (fg_cells g fg)) = component g fg"
proof -
  have "edges (fg_cells g fg) \<union> (edges (fg_cells g fg))\<inverse> =
        {(c, d). c \<in> fg_cells g fg \<and> d \<in> fg_cells g fg \<and> adjacent c d}"
    (is "?L = ?R")
  proof (intro set_eqI iffI)
    fix e assume "e \<in> ?L"
    then show "e \<in> ?R" by (cases e) (auto simp: edges_def adjacent_def)
  next
    fix e assume e: "e \<in> ?R"
    obtain c d where cd: "e = (c, d)" by (cases e)
    from e cd have F: "c \<in> fg_cells g fg" "d \<in> fg_cells g fg" and a: "adjacent c d" by auto
    from a have "d = (fst c - 1, snd c) \<or> d = (fst c, snd c - 1) \<or>
                 c = (fst d - 1, snd d) \<or> c = (fst d, snd d - 1)"
      by (cases c; cases d) (auto simp: adjacent_def)
    with F cd show "e \<in> ?L" by (auto simp: edges_def)
  qed
  then show ?thesis by (simp add: conn_def component_def)
qed

lemma run_unique:
  assumes G: "geom fg m0 cs st" and k: "0 \<le> k" "k \<le> run_number st"
    and x: "x \<in> run_cells (lists st) k"
  shows "x \<in> fgset fg cs \<and> k = mask_run st x"
proof (cases "2 \<le> k")
  case True
  from geomD_run(2)[OF G True k(2) x] show ?thesis by simp
next
  case False
  with k(1) have "k = 0 \<or> k = 1" by auto
  with geomD(4,5)[OF G] have "lengths (lists st) ! nat k = 0" by auto
  with x show ?thesis by (auto simp: run_cells_def)
qed

lemma labelMask_labels:
  assumes G: "geom fg m0 cs st" and L: "labelMask st' = Some st''"
    and l: "lists st' = lists st" "run_number st' = run_number st"
    and x: "x \<in> fgset fg cs"
  shows "trackParentRun (mask_run st x) (parents (lists st)) = Some (mask_run st'' x)"
proof -
  let ?k = "mask_run st x" and ?ks = "[0..run_number st]"
  from L l obtain m where m: "label_runs (lists st) ?ks (mask_run st') = Some m"
    and st'': "st'' = st'\<lparr>mask_run := m\<rparr>" by (auto simp: labelMask_def bind_eq_Some_conv)
  have "distinct ?ks" by simp
  from label_runs_char[OF m this] have
    B: "?k \<in> set ?ks \<and> x \<in> run_cells (lists st) ?k \<and>
          (\<forall>k'\<in>set ?ks. k' \<noteq> ?k \<longrightarrow> x \<notin> run_cells (lists st) k') \<longrightarrow>
          trackParentRun ?k (parents (lists st)) = Some (m x)" by blast
  note f = geomD_fg[OF G x]
  from f have 1: "?k \<in> set ?ks" by simp
  have 2: "\<forall>k'\<in>set ?ks. k' \<noteq> ?k \<longrightarrow> x \<notin> run_cells (lists st) k'"
  proof (intro ballI impI notI)
    fix k' assume "k' \<in> set ?ks" "k' \<noteq> ?k" "x \<in> run_cells (lists st) k'"
    then have "0 \<le> k'" "k' \<le> run_number st" by auto
    from run_unique[OF G this \<open>x \<in> run_cells (lists st) k'\<close>] \<open>k' \<noteq> ?k\<close> show False by simp
  qed
  from B 1 f(3) 2 st'' show ?thesis by simp
qed

lemma compute_runs_labels:
  assumes Pr: "prepared g fg m" and I: "initial sz m = Some st0" and sz: "3 \<le> sz"
  shows "\<exists>st1 st'. scan e g fg (points g) st0 = Some st1 \<and> full_inv e fg m (points g) st1 \<and>
           compute_runs e g fg env st0 = Some st' \<and>
           (\<forall>x\<in>fg_cells g fg. mask_run st' x = lab st1 x)"
proof -
  from full_points[OF I sz Pr] obtain st1 where
    s1: "scan e g fg (points g) st0 = Some st1" and F: "full_inv e fg m (points g) st1" by blast
  from F have G: "geom fg m (points g) st1" and wf: "wf_lists st1" by (simp_all add: full_inv_def)
  from labelMask_total[OF wf] obtain st2 where st2: "labelMask st1 = Some st2" "wf_lists st2"
    by auto
  let ?st3 = "st2\<lparr>mask_run := updateGhosts g env (mask_run st2)\<rparr>"
  from st2(2) have "wf_lists ?st3" by (simp add: wf_lists_def sized_def)
  from labelMask_total[OF this] obtain st' where st': "labelMask ?st3 = Some st'" by auto
  from s1 st2(1) st' have c: "compute_runs e g fg env st0 = Some st'"
    by (auto simp: compute_runs_Some)
  from labelMask_lists[OF st2(1)] have l: "lists ?st3 = lists st1" "run_number ?st3 = run_number st1"
    by simp_all
  have "mask_run st' x = lab st1 x" if "x \<in> fg_cells g fg" for x
  proof -
    from that have "x \<in> fgset fg (points g)" by (simp add: fg_cells_fgset)
    from labelMask_labels[OF G st' l this] show ?thesis by (simp add: lab_def root_def)
  qed
  with s1 F c show ?thesis by blast
qed

lemma checkForegroundPixel_geometry:
  assumes "checkForegroundPixel e g i j st = Some st1"
  shows "max_items st1 = max_items st \<and>
    run_number st1 = (if west_fg g st i j then run_number st else run_number st + 1) \<and>
    lengths (lists st1) =
      (if west_fg g st i j
       then (lengths (lists st))[nat (run_number st) := lengths (lists st) ! nat (run_number st) + 1]
       else (lengths (lists st))[nat (run_number st + 1) := 1]) \<and>
    i_vec (lists st1) =
      (if west_fg g st i j then i_vec (lists st) else (i_vec (lists st))[nat (run_number st + 1) := i]) \<and>
    j_vec (lists st1) =
      (if west_fg g st i j then j_vec (lists st) else (j_vec (lists st))[nat (run_number st + 1) := j])"
proof (cases "west_fg g st i j")
  case True
  from checkForegroundPixel_effect[OF assms] show ?thesis unfolding if_P[OF True] by blast
next
  case False
  from checkForegroundPixel_effect[OF assms] show ?thesis unfolding if_not_P[OF False] by blast
qed

lemma same_runs_grow:
  assumes "same_runs s s'"
  shows "same_runs (grow g s) (grow g s')"
  using assms by (simp add: same_runs_def grow_def resizeLists_def)

lemma same_runs_step:
  assumes P: "points g = done @ c # rest"
    and G: "geom fg m0 done st" and G': "geom fg m0' done st'"
    and W: "west_prepared g fg m0" and W': "west_prepared g fg m0'"
    and R: "same_runs st st'"
    and S: "scan_step e g fg c st = Some s1" and S': "scan_step e g fg c st' = Some s1'"
  shows "same_runs s1 s1'"
proof (cases "fg (fst c) (snd c)")
  case False
  from scan_step_bg[where fg = fg and c = c, OF False] S S' have "s1 = st" "s1' = st'" by simp_all
  with R show ?thesis by simp
next
  case True
  from S scan_step_fg[where fg = fg and c = c, OF True, of e g st] obtain c1 where
    C: "checkForegroundPixel e g (fst c) (snd c) st = Some c1"
    and s1: "s1 = grow g (c1\<lparr>mask_run := (mask_run c1)(c := run_number c1)\<rparr>)"
    by auto
  from S' scan_step_fg[where fg = fg and c = c, OF True, of e g st'] obtain c1' where
    C': "checkForegroundPixel e g (fst c) (snd c) st' = Some c1'"
    and s1': "s1' = grow g (c1'\<lparr>mask_run := (mask_run c1')(c := run_number c1')\<rparr>)"
    by auto
  from west_fg_iff[OF P G W True] west_fg_iff[OF P G' W' True]
  have w: "west_fg g st' (fst c) (snd c) = west_fg g st (fst c) (snd c)" by simp
  from checkForegroundPixel_geometry[OF C] checkForegroundPixel_geometry[OF C'] R
  have "same_runs c1 c1'" unfolding w same_runs_def by simp
  then have "same_runs (c1\<lparr>mask_run := (mask_run c1)(c := run_number c1)\<rparr>)
                       (c1'\<lparr>mask_run := (mask_run c1')(c := run_number c1')\<rparr>)"
    by (simp add: same_runs_def)
  from same_runs_grow[OF this] s1 s1' show ?thesis by simp
qed

lemma same_runs_scan:
  assumes "points g = done @ cs @ rest"
    and "geom fg m0 done st" and "geom fg m0' done st'"
    and W: "west_prepared g fg m0" and W': "west_prepared g fg m0'"
    and "same_runs st st'"
    and "scan e g fg cs st = Some s1" and "scan e g fg cs st' = Some s1'"
  shows "same_runs s1 s1'"
  using assms(1,2,3,6,7,8)
proof (induction cs arbitrary: "done" st st')
  case Nil
  then show ?case by simp
next
  case (Cons c cs)
  from Cons.prems(5) obtain t where t: "scan_step e g fg c st = Some t"
     "scan e g fg cs t = Some s1" by (auto split: option.splits)
  from Cons.prems(6) obtain t' where t': "scan_step e g fg c st' = Some t'"
     "scan e g fg cs t' = Some s1'" by (auto split: option.splits)
  from Cons.prems(1) have P: "points g = done @ c # (cs @ rest)" by simp
  note G1 = geom_step[OF P Cons.prems(2) W t(1)] and G1' = geom_step[OF P Cons.prems(3) W' t'(1)]
  note R1 = same_runs_step[OF P Cons.prems(2,3) W W' Cons.prems(4) t(1) t'(1)]
  from Cons.prems(1) have "points g = (done @ [c]) @ cs @ rest" by simp
  from Cons.IH[OF this G1 G1' R1 t(2) t'(2)] show ?case .
qed

lemma same_runs_mask:
  assumes G: "geom fg m0 cs st" and G': "geom fg m0' cs st'" and R: "same_runs st st'"
    and x: "x \<in> fgset fg cs"
  shows "mask_run st' x = mask_run st x"
proof -
  note f = geomD_fg[OF G x]
  from R have "run_cells (lists st') (mask_run st x) = run_cells (lists st) (mask_run st x)"
    by (intro run_cells_cong) (simp_all add: same_runs_def)
  with f(3) have "x \<in> run_cells (lists st') (mask_run st x)" by simp
  moreover from f(2) R have "mask_run st x \<le> run_number st'" by (simp add: same_runs_def)
  ultimately show ?thesis using geomD_run(2)[OF G' f(1)] by blast
qed

subsection \<open>The label of a component is its smallest run index\<close>

lemma lab_le:
  assumes G: "geom fg m0 cs st" and wf: "wf_lists st" and x: "x \<in> fgset fg cs"
  shows "lab st x \<le> mask_run st x"
proof -
  from wf have d: "downward (parents (lists st)) (run_number st)" by (simp add: wf_lists_def)
  from geomD_fg(1,2)[OF G x] have "0 \<le> mask_run st x" "mask_run st x \<le> run_number st" by simp_all
  from root_downward(3)[OF d this] show ?thesis by (simp add: lab_def)
qed

lemma lab_start:
  assumes G: "geom fg m0 cs st" and wf: "wf_lists st" and x: "x \<in> fgset fg cs"
    and n1: "lab st x \<noteq> 1"
  shows "\<exists>z\<in>fgset fg cs. mask_run st z = lab st x \<and> lab st z = lab st x"
proof -
  let ?ps = "parents (lists st)" and ?L = "lists st" and ?r = "lab st x"
  from wf have d: "downward ?ps (run_number st)" by (simp add: wf_lists_def)
  from geomD_fg(1,2)[OF G x] have k: "0 \<le> mask_run st x" "mask_run st x \<le> run_number st"
    "1 \<le> mask_run st x" by simp_all
  from root_downward(3)[OF d k(1,2)] root_downward(4)[OF d k(1,2,3)] n1 k(2)
  have r: "2 \<le> ?r" "?r \<le> run_number st" by (simp_all add: lab_def)
  from geomD_run(1)[OF G r] have "1 \<le> lengths ?L ! nat ?r" .
  then have "(i_vec ?L ! nat ?r, j_vec ?L ! nat ?r) = (i_vec ?L ! nat ?r + 0, j_vec ?L ! nat ?r) \<and>
             (0::int) \<le> 0 \<and> 0 < lengths ?L ! nat ?r" by simp
  then have "(i_vec ?L ! nat ?r, j_vec ?L ! nat ?r) \<in> run_cells ?L ?r"
    unfolding run_cells_def by blast
  from geomD_run(2)[OF G r this] obtain z where z: "z \<in> fgset fg cs" "mask_run st z = ?r" by blast
  from root_root[OF d k(1,2)] z(2) have "lab st z = ?r" by (simp add: lab_def)
  with z show ?thesis by blast
qed

text \<open>Two labelings of the same runs agree when the sink cells of the second are the
  cells the first has labelled 1.\<close>

lemma labels_agree:
  assumes inv1: "cc_inv F E Sk1 l1" and inv2: "cc_inv F E Sk2 l2"
    and sk: "Sk2 = {x \<in> F. l1 x = 1}"
    and le1: "\<And>y. y \<in> F \<Longrightarrow> l1 y \<le> r y" and le2: "\<And>y. y \<in> F \<Longrightarrow> l2 y \<le> r y"
    and st1: "\<And>y. y \<in> F \<Longrightarrow> l1 y \<noteq> 1 \<Longrightarrow> \<exists>z\<in>F. r z = l1 y \<and> l1 z = l1 y"
    and st2: "\<And>y. y \<in> F \<Longrightarrow> l2 y \<noteq> 1 \<Longrightarrow> \<exists>z\<in>F. r z = l2 y \<and> l2 z = l2 y"
    and x: "x \<in> F"
  shows "l2 x = l1 x"
proof -
  note i1 = cc_invD[OF inv1] and i2 = cc_invD[OF inv2]
  note c1 = cc_constant[OF inv1] and c2 = cc_constant[OF inv2]
  have one: "l2 x = 1 \<longleftrightarrow> l1 x = 1"
  proof
    assume "l2 x = 1"
    from i2(6)[OF x this] obtain z where z: "z \<in> Sk2" "(x, z) \<in> conn E" by blast
    from z(1) sk have "l1 z = 1" by simp
    with c1[OF z(2)] show "l1 x = 1" by simp
  next
    assume "l1 x = 1"
    with x sk have "x \<in> Sk2" by simp
    from i2(4)[OF this] show "l2 x = 1" .
  qed
  show ?thesis
  proof (cases "l1 x = 1")
    case True
    with one show ?thesis by simp
  next
    case False
    with one have n2: "l2 x \<noteq> 1" by simp
    from st1[OF x False] obtain z1 where z1: "z1 \<in> F" "r z1 = l1 x" "l1 z1 = l1 x" by blast
    from i1(5)[OF x z1(1)] z1(3) False have "(x, z1) \<in> conn E" by simp
    from c2[OF this] le2[OF z1(1)] z1(2) have a: "l2 x \<le> l1 x" by simp
    from st2[OF x n2] obtain z2 where z2: "z2 \<in> F" "r z2 = l2 x" "l2 z2 = l2 x" by blast
    from i2(5)[OF x z2(1)] z2(3) n2 have "(x, z2) \<in> conn E" by simp
    from c1[OF this] le1[OF z2(1)] z2(2) have "l1 x \<le> l2 x" by simp
    with a show ?thesis by simp
  qed
qed

lemma initial_same_runs:
  assumes "initial sz m = Some st" "initial sz m' = Some st'"
  shows "same_runs st st'"
  using assms by (auto simp: initial_Some same_runs_def)

lemma scan_same_runs:
  assumes I: "initial sz m = Some st" and I': "initial sz m' = Some st'"
    and W: "west_prepared g fg m" and W': "west_prepared g fg m'"
    and S: "scan e g fg (points g) st = Some s" and S': "scan e g fg (points g) st' = Some s'"
    and x: "x \<in> fgset fg (points g)"
  shows "mask_run s' x = mask_run s x"
proof -
  have P: "points g = [] @ points g @ []" by simp
  from same_runs_scan[OF P geom_initial[OF I] geom_initial[OF I'] W W'
      initial_same_runs[OF I I'] S S']
  have R: "same_runs s s'" .
  from same_runs_mask[OF geom_full[OF I W S] geom_full[OF I' W' S'] R x] show ?thesis .
qed

text \<open>
  Claim C8, as amended. Provided that no owned background cell holds a positive value before
  the first invocation (and the lists have room for one run), \<^verbatim>\<open>compute_runs\<close> returns,
  and invoking it again on the raster it has left, with freshly initialised lists, the same
  foreground predicate and the same ghost values, returns and leaves every cell of the
  raster with the value it held after the first invocation.
\<close>

theorem C8_second_invocation_changes_no_label:
  assumes "prepared g fg m" and "initial sz m = Some st0" and "3 \<le> sz"
  shows "\<exists>st1 st0' st2.
           compute_runs e g fg env st0 = Some st1 \<and>
           initial sz (mask_run st1) = Some st0' \<and>
           compute_runs e g fg env st0' = Some st2 \<and>
           mask_run st2 = mask_run st1"
proof -
  let ?F = "fg_cells g fg"
  note W = prepared_west[OF assms(1)]
  from compute_runs_labels[OF assms, of e env] obtain s1 st1 where
    S1: "scan e g fg (points g) st0 = Some s1" and F1: "full_inv e fg m (points g) s1"
    and C1: "compute_runs e g fg env st0 = Some st1"
    and L1: "\<And>x. x \<in> ?F \<Longrightarrow> mask_run st1 x = lab s1 x" by blast
  let ?m1 = "mask_run st1"
  have fr1: "?m1 c = updateGhosts g env m c" if "c \<notin> ?F" for c
    using compute_runs_frame[OF W assms(2) C1, of c] that by (simp add: fg_cells_def)
  have Pr1: "prepared g fg ?m1"
    unfolding prepared_def
  proof (intro allI impI)
    fix c assume c: "owned g c \<and> \<not> fg (fst c) (snd c)"
    then have "c \<notin> ?F" by (simp add: fg_cells_def)
    from fr1[OF this] c have "?m1 c = m c" by (simp add: updateGhosts_def)
    moreover from assms(1) c have "m c \<le> 0" unfolding prepared_def by blast
    ultimately show "?m1 c \<le> 0" by simp
  qed
  note W1 = prepared_west[OF Pr1]
  from assms(3) obtain st0' where I1: "initial sz ?m1 = Some st0'" by (auto simp: initial_Some)
  from compute_runs_labels[OF Pr1 I1 assms(3), of e env] obtain s2 st2 where
    S2: "scan e g fg (points g) st0' = Some s2" and F2: "full_inv e fg ?m1 (points g) s2"
    and C2: "compute_runs e g fg env st0' = Some st2"
    and L2: "\<And>x. x \<in> ?F \<Longrightarrow> mask_run st2 x = lab s2 x" by blast
  have fr2: "mask_run st2 c = updateGhosts g env ?m1 c" if "c \<notin> ?F" for c
    using compute_runs_frame[OF W1 I1 C2, of c] that by (simp add: fg_cells_def)
  from F1 have G1: "geom fg m (points g) s1" and wf1: "wf_lists s1"
    and inv1: "cc_inv ?F (edges ?F) (sinks e m ?F) (lab s1)"
    by (simp_all add: full_inv_def fg_cells_fgset)
  from F2 have G2: "geom fg ?m1 (points g) s2" and wf2: "wf_lists s2"
    and inv2: "cc_inv ?F (edges ?F) (sinks e ?m1 ?F) (lab s2)"
    by (simp_all add: full_inv_def fg_cells_fgset)
  have rid: "mask_run s2 x = mask_run s1 x" if "x \<in> ?F" for x
    using scan_same_runs[OF assms(2) I1 W W1 S1 S2, of x] that by (simp add: fg_cells_fgset)
  have sk: "sinks e ?m1 ?F = {x \<in> ?F. lab s1 x = 1}"
  proof (intro set_eqI iffI)
    fix x assume "x \<in> sinks e ?m1 ?F"
    then have "x \<in> ?F" "?m1 x = 1" by (simp_all add: sinks_def)
    with L1[of x] show "x \<in> {x \<in> ?F. lab s1 x = 1}" by simp
  next
    fix x assume "x \<in> {x \<in> ?F. lab s1 x = 1}"
    then have x: "x \<in> ?F" "lab s1 x = 1" by simp_all
    from cc_invD(6)[OF inv1 x] have "e = SinkCC" by (auto simp: sinks_def)
    with x L1[of x] show "x \<in> sinks e ?m1 ?F" by (simp add: sinks_def)
  qed
  have le1: "lab s1 y \<le> mask_run s1 y" if "y \<in> ?F" for y
    using lab_le[OF G1 wf1, of y] that by (simp add: fg_cells_fgset)
  have le2: "lab s2 y \<le> mask_run s1 y" if "y \<in> ?F" for y
    using lab_le[OF G2 wf2, of y] that rid[OF that] by (simp add: fg_cells_fgset)
  have st1: "\<exists>z\<in>?F. mask_run s1 z = lab s1 y \<and> lab s1 z = lab s1 y"
    if "y \<in> ?F" "lab s1 y \<noteq> 1" for y
    using lab_start[OF G1 wf1, of y] that by (simp add: fg_cells_fgset)
  have st2: "\<exists>z\<in>?F. mask_run s1 z = lab s2 y \<and> lab s2 z = lab s2 y"
    if "y \<in> ?F" "lab s2 y \<noteq> 1" for y
  proof -
    from lab_start[OF G2 wf2, of y] that obtain z where
      z: "z \<in> ?F" "mask_run s2 z = lab s2 y" "lab s2 z = lab s2 y"
      by (auto simp: fg_cells_fgset)
    with rid[OF z(1)] show ?thesis by auto
  qed
  have "mask_run st2 c = ?m1 c" for c
  proof (cases "c \<in> ?F")
    case True
    from labels_agree[OF inv1 inv2 sk le1 le2 st1 st2 True] L1[OF True] L2[OF True]
    show ?thesis by simp
  next
    case False
    from fr2[OF False] fr1[OF False] show ?thesis by (simp add: updateGhosts_def)
  qed
  then have "mask_run st2 = ?m1" by (simp add: fun_eq_iff)
  with C1 I1 C2 show ?thesis by blast
qed

theorem C8_witness:
  "mask_run (the (compute_runs SinkCC grid3 fg_hook no_sink
       (the (initial 4 (mask_run (the (compute_runs SinkCC grid3 fg_hook no_sink
                                         (the (initial 4 sink_corner)))))))))
   = mask_run (the (compute_runs SinkCC grid3 fg_hook no_sink (the (initial 4 sink_corner))))"
proof -
  have p: "prepared grid3 fg_hook sink_corner"
    by (auto simp: prepared_def sink_corner_def no_sink_def fg_hook_def)
  have i: "initial 4 sink_corner = Some (the (initial 4 sink_corner))"
    by (rule the_Some) code_simp
  have s: "(3::nat) \<le> 4" by simp
  from C8_second_invocation_changes_no_label[OF p i s, of SinkCC no_sink]
  obtain st1 st0' st2 where
    a: "compute_runs SinkCC grid3 fg_hook no_sink (the (initial 4 sink_corner)) = Some st1"
    and b: "initial 4 (mask_run st1) = Some st0'"
    and c: "compute_runs SinkCC grid3 fg_hook no_sink st0' = Some st2"
    and d: "mask_run st2 = mask_run st1" by blast
  from a have 1: "the (compute_runs SinkCC grid3 fg_hook no_sink (the (initial 4 sink_corner))) = st1"
    by simp
  from b have 2: "the (initial 4 (mask_run st1)) = st0'" by simp
  from c have 3: "the (compute_runs SinkCC grid3 fg_hook no_sink st0') = st2" by simp
  show ?thesis unfolding 1 2 3 by (rule d)
qed

text \<open>
  Claim C8 as stated fails. On the tile of four by two cells the sink mark at the background
  cell \<open>(2, 0)\<close> makes the first invocation continue the run of \<open>(0, 0)\<close> at \<open>(3, 0)\<close>, so
  label resolution writes the label 2 into the background cell \<open>(1, 0)\<close>; the cell \<open>(1, 1)\<close>
  above it gets the label 3. The second invocation finds the positive value south of
  \<open>(1, 1)\<close> and labels that cell 2.
\<close>

theorem C8_counterexample:
  "label_at (compute_runs SinkCC grid_two_rows fg_three no_sink
               (the (initial 4 sink_background))) (1, 1) = Some 3 \<and>
   label_at (compute_runs SinkCC grid_two_rows fg_three no_sink
        (the (initial 4 (mask_run (the (compute_runs SinkCC grid_two_rows fg_three no_sink
                                           (the (initial 4 sink_background)))))))) (1, 1) = Some 2"
  by code_simp

subsection \<open>A tile without inner margin\<close>

lemma margin_step_whole_domain:
  assumes "whole_domain g"
  shows "margin_step g c sc = Some sc"
  using assms
  by (cases c)
     (auto simp: margin_step_def whole_domain_def Let_def i_local_first_def i_local_last_def
        j_local_first_def j_local_last_def i_global_first_def i_global_last_def
        j_global_first_def j_global_last_def)

lemma margin_loop_whole_domain:
  assumes "whole_domain g"
  shows "margin_loop g cs sc = Some sc"
  by (induction cs) (simp_all add: margin_step_whole_domain[OF assms])

subsection \<open>The scan from a prepared raster, as far as it returns\<close>

lemma wf_step_partial:
  assumes P: "points g = done @ c # rest" and G: "geom fg m0 done st" and wf: "wf_lists st"
    and Pr: "prepared g fg m0" and S: "scan_step e g fg c st = Some st'"
  shows "wf_lists st'"
proof -
  from points_split(1)[OF P] owned_ym[of g c] have ym: "1 \<le> ym g" by simp
  from wf have sz: "sized st" by (simp add: wf_lists_def)
  have "\<exists>st''. scan_step e g fg c st = Some st'' \<and> wf_lists st'' \<and> (cap st \<longrightarrow> cap st'') \<and>
           run_number st \<le> run_number st'' \<and> run_number st'' \<le> run_number st + 1 \<and>
           mask_run st'' = (if fg (fst c) (snd c) then (mask_run st)(c := run_number st'')
                           else mask_run st)"
  proof (rule scan_step_wf[OF wf ym])
    assume "fg (fst c) (snd c)" "fst c \<le> i_local_first g \<or> mask_run st (fst c - 1, snd c) \<le> 0"
    then show "cap st" by (rule scan_step_cap[OF S sz])
  next
    assume "j_local_first g < snd c"
    then show "mask_run st (fst c, snd c - 1) \<le> run_number st" by (rule south_bound[OF P G Pr])
  qed
  with S show ?thesis by auto
qed

lemma wf_scan_partial:
  assumes "points g = done @ cs @ rest" "geom fg m0 done st" "wf_lists st"
    and Pr: "prepared g fg m0" and "scan e g fg cs st = Some st'"
  shows "wf_lists st'"
  using assms(1,2,3,5)
proof (induction cs arbitrary: "done" st)
  case Nil
  then show ?case by simp
next
  case (Cons c cs)
  from Cons.prems(4) obtain t where t: "scan_step e g fg c st = Some t"
     "scan e g fg cs t = Some st'" by (auto split: option.splits)
  from Cons.prems(1) have P: "points g = done @ c # (cs @ rest)" by simp
  note G1 = geom_step[OF P Cons.prems(2) prepared_west[OF Pr] t(1)]
  note wf1 = wf_step_partial[OF P Cons.prems(2,3) Pr t(1)]
  from Cons.prems(1) have "points g = (done @ [c]) @ cs @ rest" by simp
  from Cons.IH[OF this G1 wf1 t(2)] show ?case .
qed

lemma wf_prefix_partial:
  assumes I: "initial sz m = Some st0" and Pr: "prepared g fg m"
    and S: "scan e g fg (take n (points g)) st0 = Some st"
  shows "wf_lists st"
proof -
  have "points g = [] @ take n (points g) @ drop n (points g)" by simp
  from wf_scan_partial[OF this geom_initial[OF I] initial_wf(1)[OF I] Pr S] show ?thesis .
qed

lemma full_prefix:
  assumes I: "initial sz m = Some st0" and sz: "3 \<le> sz" and Pr: "prepared g fg m"
  shows "\<exists>st. scan e g fg (take n (points g)) st0 = Some st \<and>
              full_inv e fg m (take n (points g)) st"
proof -
  have "points g = [] @ take n (points g) @ drop n (points g)" by simp
  from full_scan[OF this full_initial[OF I sz] Pr] show ?thesis by simp
qed

subsection \<open>The union leaves every run that has a parent where it is\<close>

lemma run_union_keeps:
  assumes d: "downward ps n" and a: "1 \<le> a" "a \<le> n" and b: "1 \<le> b" "b \<le> n"
    and u: "run_union ps a b = Some ps'" and k: "ps ! nat k \<noteq> 0"
  shows "ps' ! nat k = ps ! nat k"
proof -
  from a b have a0: "0 \<le> a" "0 \<le> b" by simp_all
  note ra = root_downward[OF d a0(1) a(2)] and rb = root_downward[OF d a0(2) b(2)]
  from d have n1: "1 \<le> n" by (simp add: downward_def)
  from downward_reserved[OF d] have "ps ! 0 = 0" by (simp add: reserved_def)
  with downward_vget[OF d _ _, of 0] n1 have z: "vget ps 0 = Some 0" by simp
  from run_union_roots[OF z ra(1) rb(1)] u
  have ps': "ps' = (if root ps b < root ps a then ps[nat (root ps a) := root ps b]
                   else if root ps a < root ps b then ps[nat (root ps b) := root ps a] else ps)"
    by simp
  from ra(5) rb(5) have rz: "ps ! nat (root ps a) = 0" "ps ! nat (root ps b) = 0"
    by (simp_all add: vget_Some)
  with k have "nat k \<noteq> nat (root ps a)" "nat k \<noteq> nat (root ps b)" by auto
  with ps' show ?thesis by simp
qed

subsection \<open>One foreground cell: the step returns and follows the rule\<close>

lemma south_fg_iff2:
  assumes P: "points g = done @ c # rest" and G: "geom fg m0 done st"
    and Pr: "prepared g fg m0"
  shows "south_fg g st (fst c) (snd c) \<longleftrightarrow> j_local_first g < snd c \<and> fg (fst c) (snd c - 1)"
proof (cases "j_local_first g < snd c")
  case False
  then show ?thesis by (simp add: south_fg_def)
next
  case True
  from points_south[OF P True] have "(fst c, snd c - 1) \<in> set done" .
  with south_fg_iff[OF P G Pr] True show ?thesis by (simp add: fgset_def)
qed

lemma pixel_rule:
  assumes wf: "wf_lists st" and newc: "\<not> west_fg g st i j \<Longrightarrow> cap st"
    and south: "j_local_first g < j \<Longrightarrow> mask_run st (i, j - 1) \<le> run_number st"
  shows "\<exists>st'. checkForegroundPixel e g i j st = Some st' \<and> wf_lists st' \<and>
      mask_run st' = mask_run st \<and>
      (if west_fg g st i j
       then run_number st' = run_number st \<and>
            lengths (lists st') = (lengths (lists st))[nat (run_number st) :=
                                     lengths (lists st) ! nat (run_number st) + 1] \<and>
            i_vec (lists st') = i_vec (lists st) \<and> j_vec (lists st') = j_vec (lists st)
       else run_number st' = run_number st + 1 \<and>
            lengths (lists st') = (lengths (lists st))[nat (run_number st + 1) := 1] \<and>
            i_vec (lists st') = (i_vec (lists st))[nat (run_number st + 1) := i] \<and>
            j_vec (lists st') = (j_vec (lists st))[nat (run_number st + 1) := j] \<and>
            vget (parents (lists st')) (run_number st') =
              Some (if sink_here e st i j then 1
                    else if south_fg g st i j then mask_run st (i, j - 1) else 0)) \<and>
      (\<exists>ps1.
         (if west_fg g st i j
          then (if sink_here e st i j
                then setRunSink (run_number st) (parents (lists st)) = Some ps1
                else ps1 = parents (lists st))
          else ps1 = (parents (lists st))[nat (run_number st + 1) :=
                        (if sink_here e st i j then 1
                         else if south_fg g st i j then mask_run st (i, j - 1) else 0)]) \<and>
         (if south_fg g st i j
          then run_union ps1 (mask_run st (i, j - 1)) (run_number st') = Some (parents (lists st'))
          else parents (lists st') = ps1))"
proof -
  let ?ps = "parents (lists st)" and ?n = "run_number st" and ?s = "mask_run st (i, j - 1)"
  let ?p = "if sink_here e st i j then 1 else if south_fg g st i j then ?s else 0"
  from wf have d: "downward ?ps ?n" by (simp add: wf_lists_def)
  from d have n1: "1 \<le> ?n" by (simp add: downward_def)
  have "\<exists>st'. checkForegroundPixel e g i j st = Some st' \<and> wf_lists st' \<and>
           run_number st \<le> run_number st' \<and> run_number st' \<le> run_number st + 1 \<and>
           max_items st' = max_items st \<and> mask_run st' = mask_run st"
  proof (rule checkForegroundPixel_wf[OF wf])
    assume "i \<le> i_local_first g \<or> mask_run st (i - 1, j) \<le> 0"
    then have "\<not> west_fg g st i j" by (auto simp: west_fg_def)
    then show "cap st" by (rule newc)
  next
    assume "j_local_first g < j"
    then show "?s \<le> ?n" by (rule south)
  qed
  then obtain st' where C: "checkForegroundPixel e g i j st = Some st'" and wf': "wf_lists st'"
    by blast
  from checkForegroundPixel_effect[OF C] obtain ps1 where
    m: "mask_run st' = mask_run st" and
    a: "if west_fg g st i j
       then run_number st' = run_number st \<and>
            lengths (lists st') = (lengths (lists st))[nat (run_number st) :=
                                     lengths (lists st) ! nat (run_number st) + 1] \<and>
            i_vec (lists st') = i_vec (lists st) \<and> j_vec (lists st') = j_vec (lists st) \<and>
            0 \<le> run_number st \<and> run_number st < int (length (lengths (lists st))) \<and>
            (if sink_here e st i j
             then setRunSink (run_number st) (parents (lists st)) = Some ps1
             else ps1 = parents (lists st))
       else run_number st' = run_number st + 1 \<and>
            0 \<le> run_number st + 1 \<and> run_number st + 1 < int (length (parents (lists st))) \<and>
            lengths (lists st') = (lengths (lists st))[nat (run_number st + 1) := 1] \<and>
            i_vec (lists st') = (i_vec (lists st))[nat (run_number st + 1) := i] \<and>
            j_vec (lists st') = (j_vec (lists st))[nat (run_number st + 1) := j] \<and>
            ps1 = (parents (lists st))[nat (run_number st + 1) := ?p]"
    and b: "if south_fg g st i j
       then run_union ps1 ?s (run_number st') = Some (parents (lists st'))
       else parents (lists st') = ps1"
    by blast
  have geo: "if west_fg g st i j
       then run_number st' = run_number st \<and>
            lengths (lists st') = (lengths (lists st))[nat (run_number st) :=
                                     lengths (lists st) ! nat (run_number st) + 1] \<and>
            i_vec (lists st') = i_vec (lists st) \<and> j_vec (lists st') = j_vec (lists st)
       else run_number st' = run_number st + 1 \<and>
            lengths (lists st') = (lengths (lists st))[nat (run_number st + 1) := 1] \<and>
            i_vec (lists st') = (i_vec (lists st))[nat (run_number st + 1) := i] \<and>
            j_vec (lists st') = (j_vec (lists st))[nat (run_number st + 1) := j] \<and>
            vget (parents (lists st')) (run_number st') = Some ?p"
  proof (cases "west_fg g st i j")
    case True
    from a show ?thesis unfolding if_P[OF True] by blast
  next
    case False
    from a have a': "run_number st' = run_number st + 1 \<and>
            0 \<le> run_number st + 1 \<and> run_number st + 1 < int (length (parents (lists st))) \<and>
            lengths (lists st') = (lengths (lists st))[nat (run_number st + 1) := 1] \<and>
            i_vec (lists st') = (i_vec (lists st))[nat (run_number st + 1) := i] \<and>
            j_vec (lists st') = (j_vec (lists st))[nat (run_number st + 1) := j] \<and>
            ps1 = (parents (lists st))[nat (run_number st + 1) := ?p]"
      unfolding if_not_P[OF False] .
    then have n1e: "run_number st' = ?n + 1" and cap': "?n + 1 < int (length ?ps)"
      and ps1: "ps1 = ?ps[nat (?n + 1) := ?p]" by blast+
    from cap' n1 have at: "ps1 ! nat (?n + 1) = ?p" unfolding ps1 by simp
    from cap' n1 have inr: "0 \<le> ?n + 1" "?n + 1 < int (length ps1)" unfolding ps1 by simp_all
    have "parents (lists st') ! nat (?n + 1) = ?p \<and> length (parents (lists st')) = length ps1"
    proof (cases "south_fg g st i j")
      case s: False
      from b have "parents (lists st') = ps1" unfolding if_not_P[OF s] .
      with at show ?thesis by simp
    next
      case s: True
      from b have u: "run_union ps1 ?s (?n + 1) = Some (parents (lists st'))"
        unfolding if_P[OF s] n1e .
      from s have sp: "0 < ?s" "j_local_first g < j" by (simp_all add: south_fg_def)
      from south[OF sp(2)] have sn: "?s \<le> ?n" .
      have pb: "0 \<le> ?p" "?p \<le> ?n" "?p \<noteq> 0" using sp(1) sn n1 s by auto
      from downward_new[OF d cap' pb(1,2)] have d1: "downward ps1 (?n + 1)" unfolding ps1 .
      from sp(1) sn have sb: "1 \<le> ?s" "?s \<le> ?n + 1" by simp_all
      from n1 have nb: "1 \<le> ?n + 1" "?n + 1 \<le> ?n + 1" by simp_all
      from at pb(3) have "ps1 ! nat (?n + 1) \<noteq> 0" by simp
      from run_union_keeps[OF d1 sb nb u this] at run_union_length[OF u] show ?thesis by simp
    qed
    with inr have "vget (parents (lists st')) (?n + 1) = Some ?p" by (simp add: vget_def)
    with a' show ?thesis unfolding if_not_P[OF False] by simp
  qed
  have par: "\<exists>ps1.
         (if west_fg g st i j
          then (if sink_here e st i j
                then setRunSink (run_number st) (parents (lists st)) = Some ps1
                else ps1 = parents (lists st))
          else ps1 = (parents (lists st))[nat (run_number st + 1) := ?p]) \<and>
         (if south_fg g st i j
          then run_union ps1 ?s (run_number st') = Some (parents (lists st'))
          else parents (lists st') = ps1)"
  proof (cases "west_fg g st i j")
    case True
    from a have "if sink_here e st i j
             then setRunSink (run_number st) (parents (lists st)) = Some ps1
             else ps1 = parents (lists st)" unfolding if_P[OF True] by blast
    with b show ?thesis unfolding if_P[OF True] by blast
  next
    case False
    from a have "ps1 = (parents (lists st))[nat (run_number st + 1) := ?p]"
      unfolding if_not_P[OF False] by blast
    with b show ?thesis unfolding if_not_P[OF False] by blast
  qed
  from C wf' m geo par show ?thesis by blast
qed

text \<open>
  Claim C3, as amended. For a foreground cell \<open>(i, j)\<close> the scan reads the raster at the
  west and at the south neighbour; a neighbour counts as foreground when its raster value is
  positive (\<open>west_fg\<close>, \<open>south_fg\<close>). At a state whose lists are well formed, with room for
  one more run when a run is to be started and with a south value that is no larger than the
  run count, \<^verbatim>\<open>checkForegroundPixel\<close> returns, for the base engine and for the sink engine,
  and: if the cell is not in the westmost column of the tile and the west value is
  positive, the length of the current run is incremented. Otherwise a new run
  \<open>run_number + 1\<close> of length 1 is started at \<open>(i, j)\<close>, whose parent is the sink root 1 when
  the sink engine finds the sink mark at the cell, else the raster value of the south
  neighbour (the provisional run index written there by the scan, not its resolved label)
  when the cell is not in the southmost row and that value is positive, and 0 otherwise. In
  both cases, when the cell is not in the southmost row and the south value is positive,
  \<^verbatim>\<open>run_union\<close> is applied to the south value and the new or continued run, and the new run
  keeps its parent. In a scan that starts from the initialised lists and a raster in which no
  owned background cell holds a positive value, every foreground cell is reached in such a
  state, and there the two raster tests agree with the foreground predicate at the
  neighbours inside the tile.
\<close>

theorem C3_scan_rule:
  "(wf_lists st \<longrightarrow> (\<not> west_fg g st i j \<longrightarrow> cap st) \<longrightarrow>
    (j_local_first g < j \<longrightarrow> mask_run st (i, j - 1) \<le> run_number st) \<longrightarrow>
    (\<exists>st'. checkForegroundPixel e g i j st = Some st' \<and> wf_lists st' \<and>
      mask_run st' = mask_run st \<and>
      (if west_fg g st i j
       then run_number st' = run_number st \<and>
            lengths (lists st') = (lengths (lists st))[nat (run_number st) :=
                                     lengths (lists st) ! nat (run_number st) + 1] \<and>
            i_vec (lists st') = i_vec (lists st) \<and> j_vec (lists st') = j_vec (lists st)
       else run_number st' = run_number st + 1 \<and>
            lengths (lists st') = (lengths (lists st))[nat (run_number st + 1) := 1] \<and>
            i_vec (lists st') = (i_vec (lists st))[nat (run_number st + 1) := i] \<and>
            j_vec (lists st') = (j_vec (lists st))[nat (run_number st + 1) := j] \<and>
            vget (parents (lists st')) (run_number st') =
              Some (if sink_here e st i j then 1
                    else if south_fg g st i j then mask_run st (i, j - 1) else 0)) \<and>
      (\<exists>ps1.
         (if west_fg g st i j
          then (if sink_here e st i j
                then setRunSink (run_number st) (parents (lists st)) = Some ps1
                else ps1 = parents (lists st))
          else ps1 = (parents (lists st))[nat (run_number st + 1) :=
                        (if sink_here e st i j then 1
                         else if south_fg g st i j then mask_run st (i, j - 1) else 0)]) \<and>
         (if south_fg g st i j
          then run_union ps1 (mask_run st (i, j - 1)) (run_number st') = Some (parents (lists st'))
          else parents (lists st') = ps1)))) \<and>
   (prepared g fg m \<longrightarrow> initial sz m = Some st0 \<longrightarrow> 3 \<le> sz \<longrightarrow>
    points g = done @ c # rest \<longrightarrow> fg (fst c) (snd c) \<longrightarrow>
    (\<exists>s. scan e g fg done st0 = Some s \<and> wf_lists s \<and> cap s \<and>
         (j_local_first g < snd c \<longrightarrow> mask_run s (fst c, snd c - 1) \<le> run_number s) \<and>
         (west_fg g s (fst c) (snd c) \<longleftrightarrow> i_local_first g < fst c \<and> fg (fst c - 1) (snd c)) \<and>
         (south_fg g s (fst c) (snd c) \<longleftrightarrow> j_local_first g < snd c \<and> fg (fst c) (snd c - 1)) \<and>
         (sink_here e s (fst c) (snd c) \<longleftrightarrow> e = SinkCC \<and> m c = 1)))"
proof (intro conjI impI)
  assume "wf_lists st" "\<not> west_fg g st i j \<longrightarrow> cap st"
    "j_local_first g < j \<longrightarrow> mask_run st (i, j - 1) \<le> run_number st"
  then show "\<exists>st'. checkForegroundPixel e g i j st = Some st' \<and> wf_lists st' \<and>
      mask_run st' = mask_run st \<and>
      (if west_fg g st i j
       then run_number st' = run_number st \<and>
            lengths (lists st') = (lengths (lists st))[nat (run_number st) :=
                                     lengths (lists st) ! nat (run_number st) + 1] \<and>
            i_vec (lists st') = i_vec (lists st) \<and> j_vec (lists st') = j_vec (lists st)
       else run_number st' = run_number st + 1 \<and>
            lengths (lists st') = (lengths (lists st))[nat (run_number st + 1) := 1] \<and>
            i_vec (lists st') = (i_vec (lists st))[nat (run_number st + 1) := i] \<and>
            j_vec (lists st') = (j_vec (lists st))[nat (run_number st + 1) := j] \<and>
            vget (parents (lists st')) (run_number st') =
              Some (if sink_here e st i j then 1
                    else if south_fg g st i j then mask_run st (i, j - 1) else 0)) \<and>
      (\<exists>ps1.
         (if west_fg g st i j
          then (if sink_here e st i j
                then setRunSink (run_number st) (parents (lists st)) = Some ps1
                else ps1 = parents (lists st))
          else ps1 = (parents (lists st))[nat (run_number st + 1) :=
                        (if sink_here e st i j then 1
                         else if south_fg g st i j then mask_run st (i, j - 1) else 0)]) \<and>
         (if south_fg g st i j
          then run_union ps1 (mask_run st (i, j - 1)) (run_number st') = Some (parents (lists st'))
          else parents (lists st') = ps1))"
    by (intro pixel_rule) blast+
next
  assume Pr: "prepared g fg m" and I: "initial sz m = Some st0" and sz: "3 \<le> sz"
    and P: "points g = done @ c # rest" and fc: "fg (fst c) (snd c)"
  from P have "points g = [] @ done @ (c # rest)" by simp
  from full_scan[OF this full_initial[OF I sz] Pr] obtain s where
    S: "scan e g fg done st0 = Some s" and F: "full_inv e fg m done s" by auto
  from F have G: "geom fg m done s" and wf: "wf_lists s" and cp: "cap s"
    by (simp_all add: full_inv_def)
  have sb: "j_local_first g < snd c \<longrightarrow> mask_run s (fst c, snd c - 1) \<le> run_number s"
    using south_bound[OF P G Pr] by blast
  note w = west_fg_iff[OF P G prepared_west[OF Pr] fc] and so = south_fg_iff2[OF P G Pr]
    and sk = sink_here_iff[OF P G, of e]
  from S wf cp sb w so sk
  show "\<exists>s. scan e g fg done st0 = Some s \<and> wf_lists s \<and> cap s \<and>
         (j_local_first g < snd c \<longrightarrow> mask_run s (fst c, snd c - 1) \<le> run_number s) \<and>
         (west_fg g s (fst c) (snd c) \<longleftrightarrow> i_local_first g < fst c \<and> fg (fst c - 1) (snd c)) \<and>
         (south_fg g s (fst c) (snd c) \<longleftrightarrow> j_local_first g < snd c \<and> fg (fst c) (snd c - 1)) \<and>
         (sink_here e s (fst c) (snd c) \<longleftrightarrow> e = SinkCC \<and> m c = 1)"
    by blast
qed

theorem C3_witness:
  "run_number (the (checkForegroundPixel ConnectedComponents grid3 2 2 state_row2)) = 5 \<and>
   vget (parents (lists (the (checkForegroundPixel ConnectedComponents grid3 2 2 state_row2)))) 5
     = Some 4 \<and>
   vget (parents (lists (the (checkForegroundPixel SinkCC grid3 0 0 (the (initial 4 sink_corner)))))) 2
     = Some 1 \<and>
   lengths (lists (the (checkForegroundPixel SinkCC grid3 1 1 state_row1))) =
     (lengths (lists state_row1))[4 := 2]"
proof -
  have s: "(3::nat) \<le> 4" by simp
  have p: "prepared grid3 fg_hook no_sink" by (simp add: prepared_def no_sink_def)
  have i: "initial 4 no_sink = Some (the (initial 4 no_sink))" by (rule the_Some) code_simp
  have P: "points grid3 = take 8 (points grid3) @ (2, 2) # []" by code_simp
  have fc: "fg_hook (fst (2, 2)) (snd (2, 2))" by code_simp
  note T = C3_scan_rule[where e = ConnectedComponents and g = grid3 and fg = fg_hook
      and c = "(2, 2)" and i = 2 and j = 2 and st = state_row2]
  from T[THEN conjunct2, THEN mp, OF p, THEN mp, OF i, THEN mp, OF s, THEN mp, OF P,
         THEN mp, OF fc]
  obtain s0 where sc: "scan ConnectedComponents grid3 fg_hook (take 8 (points grid3))
                        (the (initial 4 no_sink)) = Some s0"
    and wf0: "wf_lists s0" and cp0: "cap s0" by blast
  from sc have e: "s0 = state_row2" by (simp add: state_row2_def)
  from wf0 cp0 e have wf: "wf_lists state_row2" and cp: "\<not> west_fg grid3 state_row2 2 2 \<longrightarrow> cap state_row2"
    by simp_all
  have sb: "j_local_first grid3 < 2 \<longrightarrow> mask_run state_row2 (2, 2 - 1) \<le> run_number state_row2"
    by code_simp
  have nw: "\<not> west_fg grid3 state_row2 2 2" by code_simp
  have ns: "\<not> sink_here ConnectedComponents state_row2 2 2" by code_simp
  have so: "south_fg grid3 state_row2 2 2" by code_simp
  have v: "mask_run state_row2 (2, 2 - 1) = 4" "run_number state_row2 = 4" by code_simp+
  from T[THEN conjunct1, THEN mp, OF wf, THEN mp, OF cp, THEN mp, OF sb]
  obtain st' where C: "checkForegroundPixel ConnectedComponents grid3 2 2 state_row2 = Some st'"
    and r: "run_number st' = run_number state_row2 + 1 \<and>
            lengths (lists st') = (lengths (lists state_row2))[nat (run_number state_row2 + 1) := 1] \<and>
            i_vec (lists st') = (i_vec (lists state_row2))[nat (run_number state_row2 + 1) := 2] \<and>
            j_vec (lists st') = (j_vec (lists state_row2))[nat (run_number state_row2 + 1) := 2] \<and>
            vget (parents (lists st')) (run_number st') =
              Some (if sink_here ConnectedComponents state_row2 2 2 then 1
                    else if south_fg grid3 state_row2 2 2 then mask_run state_row2 (2, 2 - 1) else 0)"
    unfolding if_not_P[OF nw] by blast
  from r have r1: "run_number st' = run_number state_row2 + 1"
    and r2: "vget (parents (lists st')) (run_number st') =
              Some (if sink_here ConnectedComponents state_row2 2 2 then 1
                    else if south_fg grid3 state_row2 2 2 then mask_run state_row2 (2, 2 - 1) else 0)"
    by blast+
  from r1 v(2) have r5: "run_number st' = 5" by simp
  from r2 have "vget (parents (lists st')) (run_number st') = Some 4"
    unfolding if_not_P[OF ns] if_P[OF so] v(1) .
  then have "vget (parents (lists st')) 5 = Some 4" unfolding r5 .
  with r5 C have 1: "run_number (the (checkForegroundPixel ConnectedComponents grid3 2 2 state_row2)) = 5 \<and>
   vget (parents (lists (the (checkForegroundPixel ConnectedComponents grid3 2 2 state_row2)))) 5
     = Some 4" by simp
  have i2: "initial 4 sink_corner = Some (the (initial 4 sink_corner))"
    by (rule the_Some) code_simp
  note wf2 = initial_wf(1)[OF i2]
  have cp2: "\<not> west_fg grid3 (the (initial 4 sink_corner)) 0 0 \<longrightarrow> cap (the (initial 4 sink_corner))"
    by code_simp
  have sb2: "j_local_first grid3 < 0 \<longrightarrow>
       mask_run (the (initial 4 sink_corner)) (0, 0 - 1) \<le> run_number (the (initial 4 sink_corner))"
    by code_simp
  have nw2: "\<not> west_fg grid3 (the (initial 4 sink_corner)) 0 0" by code_simp
  have sk2: "sink_here SinkCC (the (initial 4 sink_corner)) 0 0" by code_simp
  have rn2: "run_number (the (initial 4 sink_corner)) = 1" by code_simp
  note T2 = C3_scan_rule[where e = SinkCC and g = grid3 and i = 0 and j = 0
      and st = "the (initial 4 sink_corner)"]
  from T2[THEN conjunct1, THEN mp, OF wf2, THEN mp, OF cp2, THEN mp, OF sb2]
  obtain st2 where C2: "checkForegroundPixel SinkCC grid3 0 0 (the (initial 4 sink_corner)) = Some st2"
    and q: "run_number st2 = run_number (the (initial 4 sink_corner)) + 1 \<and>
            lengths (lists st2) = (lengths (lists (the (initial 4 sink_corner))))
                [nat (run_number (the (initial 4 sink_corner)) + 1) := 1] \<and>
            i_vec (lists st2) = (i_vec (lists (the (initial 4 sink_corner))))
                [nat (run_number (the (initial 4 sink_corner)) + 1) := 0] \<and>
            j_vec (lists st2) = (j_vec (lists (the (initial 4 sink_corner))))
                [nat (run_number (the (initial 4 sink_corner)) + 1) := 0] \<and>
            vget (parents (lists st2)) (run_number st2) =
              Some (if sink_here SinkCC (the (initial 4 sink_corner)) 0 0 then 1
                    else if south_fg grid3 (the (initial 4 sink_corner)) 0 0
                         then mask_run (the (initial 4 sink_corner)) (0, 0 - 1) else 0)"
    unfolding if_not_P[OF nw2] by blast
  from q have q1: "run_number st2 = run_number (the (initial 4 sink_corner)) + 1"
    and q2: "vget (parents (lists st2)) (run_number st2) =
              Some (if sink_here SinkCC (the (initial 4 sink_corner)) 0 0 then 1
                    else if south_fg grid3 (the (initial 4 sink_corner)) 0 0
                         then mask_run (the (initial 4 sink_corner)) (0, 0 - 1) else 0)"
    by blast+
  from q1 rn2 have q5: "run_number st2 = 2" by simp
  from q2 have "vget (parents (lists st2)) (run_number st2) = Some 1" unfolding if_P[OF sk2] .
  then have "vget (parents (lists st2)) 2 = Some 1" unfolding q5 .
  with C2 have 2: "vget (parents (lists (the (checkForegroundPixel SinkCC grid3 0 0
                       (the (initial 4 sink_corner)))))) 2 = Some 1" by simp
  have p3: "prepared grid3 fg_hook sink_middle"
    by (auto simp: prepared_def sink_middle_def no_sink_def fg_hook_def)
  have i3: "initial 4 sink_middle = Some (the (initial 4 sink_middle))"
    by (rule the_Some) code_simp
  have P3: "points grid3 = take 4 (points grid3) @ (1, 1) # drop 5 (points grid3)" by code_simp
  have fc3: "fg_hook (fst (1, 1)) (snd (1, 1))" by code_simp
  note T3 = C3_scan_rule[where e = SinkCC and g = grid3 and fg = fg_hook
      and c = "(1, 1)" and i = 1 and j = 1 and st = state_row1]
  from T3[THEN conjunct2, THEN mp, OF p3, THEN mp, OF i3, THEN mp, OF s, THEN mp, OF P3,
         THEN mp, OF fc3]
  obtain s3 where sc3: "scan SinkCC grid3 fg_hook (take 4 (points grid3))
                        (the (initial 4 sink_middle)) = Some s3"
    and wf3': "wf_lists s3" and cp3': "cap s3" by blast
  from sc3 have e3: "s3 = state_row1" by (simp add: state_row1_def)
  from wf3' cp3' e3 have wf3: "wf_lists state_row1"
    and cp3: "\<not> west_fg grid3 state_row1 1 1 \<longrightarrow> cap state_row1" by simp_all
  have sb3: "j_local_first grid3 < 1 \<longrightarrow> mask_run state_row1 (1, 1 - 1) \<le> run_number state_row1"
    by code_simp
  have w3: "west_fg grid3 state_row1 1 1" by code_simp
  have v3: "run_number state_row1 = 4" "lengths (lists state_row1) ! nat 4 = 1" by code_simp+
  from T3[THEN conjunct1, THEN mp, OF wf3, THEN mp, OF cp3, THEN mp, OF sb3]
  obtain st3 where C3: "checkForegroundPixel SinkCC grid3 1 1 state_row1 = Some st3"
    and l3: "run_number st3 = run_number state_row1 \<and>
            lengths (lists st3) = (lengths (lists state_row1))[nat (run_number state_row1) :=
                                     lengths (lists state_row1) ! nat (run_number state_row1) + 1] \<and>
            i_vec (lists st3) = i_vec (lists state_row1) \<and> j_vec (lists st3) = j_vec (lists state_row1)"
    unfolding if_P[OF w3] by blast
  from l3 have "lengths (lists st3) = (lengths (lists state_row1))[nat (run_number state_row1) :=
                                     lengths (lists state_row1) ! nat (run_number state_row1) + 1]"
    by blast
  then have "lengths (lists st3) = (lengths (lists state_row1))[4 := 2]" unfolding v3 by simp
  with C3 have 3: "lengths (lists (the (checkForegroundPixel SinkCC grid3 1 1 state_row1))) =
     (lengths (lists state_row1))[4 := 2]" by simp
  from 1 2 3 show ?thesis by blast
qed

text \<open>
  Claim C3 as stated fails. In the 3 by 3 tile, when the scan reaches the cell \<open>(2, 2)\<close> the
  south neighbour \<open>(2, 1)\<close> holds the run index 4, whose resolved label is 2; the new run 5
  gets the parent 4, not the resolved label 2.
\<close>

theorem C3_counterexample:
  "mask_run state_row2 (2, 1) = 4 \<and>
   trackParentRun (mask_run state_row2 (2, 1)) (parents (lists state_row2)) = Some 2 \<and>
   run_count (checkForegroundPixel ConnectedComponents grid3 2 2 state_row2) = Some 5 \<and>
   parent_at (checkForegroundPixel ConnectedComponents grid3 2 2 state_row2) 5 = Some 4"
  by code_simp

text \<open>
  Claim C4, as amended. In a forest whose entry 0 is 0, \<^verbatim>\<open>run_union\<close> of two runs with
  roots \<open>r1\<close> and \<open>r2\<close> attaches the larger root under the smaller and leaves the forest
  unchanged when the roots coincide. \<^verbatim>\<open>run_union\<close> keeps any acyclic parent relation
  acyclic, and so does \<^verbatim>\<open>setRunSink\<close> when entry 1 is a root. In an invocation that starts
  from the initialised lists and a raster in which no owned background cell holds a positive
  value, the parent relation is acyclic at every point of the scan and when
  \<^verbatim>\<open>compute_runs\<close> has returned; with room for one run in the lists the scan and the
  invocation do return.
\<close>

theorem C4_run_union_and_acyclicity:
  "(vget ps 0 = Some 0 \<longrightarrow> trackParentRun run1 ps = Some r1 \<longrightarrow> trackParentRun run2 ps = Some r2 \<longrightarrow>
      run_union ps run1 run2 =
        Some (if r2 < r1 then ps[nat r1 := r2] else if r1 < r2 then ps[nat r2 := r1] else ps)) \<and>
   (run_union ps run1 run2 = Some ps' \<longrightarrow> acyclic (parent_rel ps) \<longrightarrow> acyclic (parent_rel ps')) \<and>
   (setRunSink run1 ps = Some ps' \<longrightarrow> vget ps 1 = Some 0 \<longrightarrow> acyclic (parent_rel ps) \<longrightarrow>
      acyclic (parent_rel ps')) \<and>
   (prepared g fg m \<longrightarrow> initial sz m = Some st0 \<longrightarrow>
      (scan e g fg (take n (points g)) st0 = Some st \<longrightarrow> acyclic (parent_rel (parents (lists st)))) \<and>
      (compute_runs e g fg env st0 = Some st' \<longrightarrow> acyclic (parent_rel (parents (lists st')))) \<and>
      (3 \<le> sz \<longrightarrow> scan e g fg (take n (points g)) st0 \<noteq> None \<and>
                   compute_runs e g fg env st0 \<noteq> None))"
proof (intro conjI impI)
  assume "vget ps 0 = Some 0" "trackParentRun run1 ps = Some r1" "trackParentRun run2 ps = Some r2"
  then show "run_union ps run1 run2 =
        Some (if r2 < r1 then ps[nat r1 := r2] else if r1 < r2 then ps[nat r2 := r1] else ps)"
    by (rule run_union_roots)
next
  assume "run_union ps run1 run2 = Some ps'" "acyclic (parent_rel ps)"
  then show "acyclic (parent_rel ps')" by (rule run_union_acyclic)
next
  assume "setRunSink run1 ps = Some ps'" "vget ps 1 = Some 0" "acyclic (parent_rel ps)"
  then show "acyclic (parent_rel ps')" by (simp add: setRunSink_acyclic)
next
  assume Pr: "prepared g fg m" and i: "initial sz m = Some st0"
    and s: "scan e g fg (take n (points g)) st0 = Some st"
  from wf_prefix_partial[OF i Pr s] show "acyclic (parent_rel (parents (lists st)))"
    by (auto simp: wf_lists_def intro: downward_acyclic)
next
  assume Pr: "prepared g fg m" and i: "initial sz m = Some st0"
    and c: "compute_runs e g fg env st0 = Some st'"
  from compute_runs_lists[OF c] obtain st1 where st1: "scan e g fg (points g) st0 = Some st1"
      "lists st' = lists st1" "run_number st' = run_number st1" by auto
  from st1(1) have "scan e g fg (take (length (points g)) (points g)) st0 = Some st1" by simp
  from wf_prefix_partial[OF i Pr this] have "wf_lists st1" .
  with st1(2) show "acyclic (parent_rel (parents (lists st')))"
    by (auto simp: wf_lists_def intro: downward_acyclic)
next
  assume Pr: "prepared g fg m" and i: "initial sz m = Some st0" and sz: "3 \<le> sz"
  from full_prefix[OF i sz Pr, of e n] show "scan e g fg (take n (points g)) st0 \<noteq> None" by auto
next
  assume Pr: "prepared g fg m" and i: "initial sz m = Some st0" and sz: "3 \<le> sz"
  from compute_runs_labels[OF Pr i sz, of e env] show "compute_runs e g fg env st0 \<noteq> None" by auto
qed

theorem C4_witness:
  "run_union [0, 0, 0, 2, 2, 4, 0] 3 5 = Some [0, 0, 0, 2, 2, 4, 0] \<and>
   run_union [0, 0, 0, 0, 2, 0, 0] 3 4 = Some [0, 0, 0, 2, 2, 0, 0] \<and>
   acyclic (parent_rel [0, 0, 0, 2, 2, 0, 0]) \<and>
   acyclic (parent_rel [0, 0, 0, 1, 2, 0, 0]) \<and>
   acyclic (parent_rel (parents (lists (the (scan SinkCC grid3 fg_hook (take 7 (points grid3))
       (the (initial 4 sink_corner))))))) \<and>
   acyclic (parent_rel (parents (lists (the (compute_runs SinkCC grid3 fg_hook no_sink
       (the (initial 4 sink_corner))))))) \<and>
   acyclic (parent_rel (parents (lists (the (compute_runs SinkCC grid3 fg_hook no_sink
       (the (initial 4 stale_labels))))))) \<and>
   compute_runs SinkCC grid3 fg_hook no_sink (the (initial 4 stale_labels)) \<noteq> None"
proof -
  have z: "vget [0, 0, 0, 2, 2, 4, 0] 0 = Some 0" "vget [0, 0, 0, 0, 2, 0, 0] 0 = Some 0"
    "vget [0, 0, 0, 0, 2, 0, 0] 1 = Some 0" by code_simp+
  have t: "trackParentRun 3 [0, 0, 0, 2, 2, 4, 0] = Some 2" "trackParentRun 5 [0, 0, 0, 2, 2, 4, 0] = Some 2"
    "trackParentRun 3 [0, 0, 0, 0, 2, 0, 0] = Some 3" "trackParentRun 4 [0, 0, 0, 0, 2, 0, 0] = Some 2"
    by code_simp+
  have s3: "setRunSink 3 [0, 0, 0, 0, 2, 0, 0] = Some [0, 0, 0, 1, 2, 0, 0]" by code_simp
  have "parent_rel [0, 0, 0, 0, 2, 0, 0] = {(4, 2)}"
  proof -
    have "(k, p) \<in> parent_rel [0, 0, 0, 0, 2, 0, 0] \<longleftrightarrow> (k, p) = (4, 2)" for k p
    proof -
      have "0 \<le> k \<and> k < 7 \<longleftrightarrow> k \<in> {0, 1, 2, 3, 4, 5, 6}" by auto
      then show ?thesis by (auto simp: parent_rel_def vget_def)
    qed
    then show ?thesis by auto
  qed
  moreover have "acyclic ({} :: (int \<times> int) set)" by (simp add: acyclic_def)
  ultimately have a0: "acyclic (parent_rel [0, 0, 0, 0, 2, 0, 0])"
    by (simp add: acyclic_insert)
  have m: "prepared grid3 fg_hook sink_corner"
    by (auto simp: prepared_def sink_corner_def no_sink_def fg_hook_def)
  have i: "initial 4 sink_corner = Some (the (initial 4 sink_corner))"
    by (rule the_Some) code_simp
  have s: "scan SinkCC grid3 fg_hook (take 7 (points grid3)) (the (initial 4 sink_corner)) =
           Some (the (scan SinkCC grid3 fg_hook (take 7 (points grid3)) (the (initial 4 sink_corner))))"
    by (rule the_Some) code_simp
  have c: "compute_runs SinkCC grid3 fg_hook no_sink (the (initial 4 sink_corner)) =
           Some (the (compute_runs SinkCC grid3 fg_hook no_sink (the (initial 4 sink_corner))))"
    by (rule the_Some) code_simp
  note T = C4_run_union_and_acyclicity
  from T[THEN conjunct1, rule_format, OF z(1) t(1,2)]
  have 1: "run_union [0, 0, 0, 2, 2, 4, 0] 3 5 = Some [0, 0, 0, 2, 2, 4, 0]" by simp
  from T[THEN conjunct1, rule_format, OF z(2) t(3,4)]
  have 2: "run_union [0, 0, 0, 0, 2, 0, 0] 3 4 = Some [0, 0, 0, 2, 2, 0, 0]" by simp
  from T[THEN conjunct2, THEN conjunct1, rule_format, OF 2 a0]
  have 3: "acyclic (parent_rel [0, 0, 0, 2, 2, 0, 0])" .
  from T[THEN conjunct2, THEN conjunct2, THEN conjunct1, rule_format, OF s3 z(3) a0]
  have 4: "acyclic (parent_rel [0, 0, 0, 1, 2, 0, 0])" .
  from T[THEN conjunct2, THEN conjunct2, THEN conjunct2, THEN mp, OF m, THEN mp, OF i]
  have 5: "scan SinkCC grid3 fg_hook (take n (points grid3)) (the (initial 4 sink_corner)) = Some st \<longrightarrow>
             acyclic (parent_rel (parents (lists st)))"
    and 6: "compute_runs SinkCC grid3 fg_hook env (the (initial 4 sink_corner)) = Some st' \<longrightarrow>
             acyclic (parent_rel (parents (lists st')))" for n st env st'
    by blast+
  have m': "prepared grid3 fg_hook stale_labels"
    by (auto simp: prepared_def stale_labels_def no_sink_def fg_hook_def)
  have i': "initial 4 stale_labels = Some (the (initial 4 stale_labels))"
    by (rule the_Some) code_simp
  have c': "compute_runs SinkCC grid3 fg_hook no_sink (the (initial 4 stale_labels)) =
           Some (the (compute_runs SinkCC grid3 fg_hook no_sink (the (initial 4 stale_labels))))"
    by (rule the_Some) code_simp
  have sz: "(3::nat) \<le> 4" by simp
  from T[THEN conjunct2, THEN conjunct2, THEN conjunct2, THEN mp, OF m', THEN mp, OF i']
  have 7: "compute_runs SinkCC grid3 fg_hook env (the (initial 4 stale_labels)) = Some st' \<longrightarrow>
             acyclic (parent_rel (parents (lists st')))"
    and 8: "3 \<le> (4::nat) \<longrightarrow>
             compute_runs SinkCC grid3 fg_hook env (the (initial 4 stale_labels)) \<noteq> None" for env st'
    by blast+
  from 1 2 3 4 5[rule_format, OF s] 6[rule_format, OF c] 7[rule_format, OF c'] 8[rule_format, OF sz]
  show ?thesis by simp
qed

text \<open>
  Claim C4 as stated fails. A raster whose background cell \<open>(0, 0)\<close> still holds the label 2
  of an earlier invocation makes \<^verbatim>\<open>startNewRun\<close> give the new run 2 the parent 2: the
  forest is acyclic before the scan and has a cycle after it.
\<close>

theorem C4_counterexample:
  "acyclic (parent_rel (parents (lists (the (initial 4 stale_two))))) \<and>
   \<not> acyclic (parent_rel (parents (lists (the (scan SinkCC grid_column fg_upper
        (points grid_column) (the (initial 4 stale_two)))))))"
proof -
  have a: "parents (lists (the (initial 4 stale_two))) = [0, 0, 0, 0]" by code_simp
  have b: "parents (lists (the (scan SinkCC grid_column fg_upper
        (points grid_column) (the (initial 4 stale_two))))) = [0, 0, 2, 0]" by code_simp
  have "parent_rel [0, 0, 0, 0] = {}"
  proof -
    have "0 \<le> k \<and> k < 4 \<longleftrightarrow> k \<in> {0, 1, 2, 3}" for k :: int by auto
    then show ?thesis by (auto simp: parent_rel_def vget_def)
  qed
  then have 1: "acyclic (parent_rel [0, 0, 0, 0])" by (simp add: acyclic_def)
  have "(2, 2) \<in> parent_rel [0, 0, 2, 0]" by (simp add: parent_rel_def vget_def)
  then have "(2, 2) \<in> (parent_rel [0, 0, 2, 0])\<^sup>+" by (rule r_into_trancl)
  then have 2: "\<not> acyclic (parent_rel [0, 0, 2, 0])" by (auto simp: acyclic_def)
  from 1 2 show ?thesis unfolding a b by simp
qed

subsection \<open>The sink engine at a cell that carries the sink mark\<close>






text \<open>
  Claim C1, as amended. On the tile of one process, provided that no owned background cell
  holds a positive value when the invocation starts (and the lists have room for one run),
  \<^verbatim>\<open>compute_runs\<close> returns, and then among the foreground cells of the tile: a cell whose
  component, taken within the tile, contains a sink cell (a foreground cell whose raster
  value was 1 when the invocation started, with the sink engine) carries the label 1; every
  cell carries a label of at least 1; and a cell whose label is not 1 shares its label with
  exactly the cells of its component, so distinct components carry distinct labels. The
  labels are those of the process. When the process owns the whole domain, the label 1 is
  carried by the cells of the components with a sink cell only, so that every other
  component carries a label greater than 1. (What a tile with an inner margin gets from the
  sink labels of its neighbours is left open; on a tile without inner margin the margin
  loop has no cell to inspect, \<open>margin_loop_whole_domain\<close>.)
\<close>

theorem C1_labels_of_one_tile:
  assumes "prepared g fg m" and "initial sz m = Some st0" and "3 \<le> sz"
  shows "\<exists>st'. compute_runs e g fg env st0 = Some st' \<and>
     (\<forall>c\<in>fg_cells g fg.
        ((\<exists>z\<in>sinks e m (fg_cells g fg). (c, z) \<in> component g fg) \<longrightarrow> mask_run st' c = 1) \<and>
        (whole_domain g \<longrightarrow> mask_run st' c = 1 \<longrightarrow>
           (\<exists>z\<in>sinks e m (fg_cells g fg). (c, z) \<in> component g fg)) \<and>
        1 \<le> mask_run st' c \<and>
        (\<forall>d\<in>fg_cells g fg. mask_run st' c \<noteq> 1 \<longrightarrow>
            (mask_run st' d = mask_run st' c \<longleftrightarrow> (c, d) \<in> component g fg)))"
proof -
  let ?F = "fg_cells g fg"
  from compute_runs_labels[OF assms, of e env] obtain st1 st' where
    F: "full_inv e fg m (points g) st1" and c: "compute_runs e g fg env st0 = Some st'"
    and l: "\<And>x. x \<in> ?F \<Longrightarrow> mask_run st' x = lab st1 x" by blast
  from F have G: "geom fg m (points g) st1" and wf: "wf_lists st1"
    and inv: "cc_inv ?F (edges ?F) (sinks e m ?F) (lab st1)"
    by (simp_all add: full_inv_def fg_cells_fgset)
  from wf have d: "downward (parents (lists st1)) (run_number st1)" by (simp add: wf_lists_def)
  note i = cc_invD[OF inv]
  note cst = cc_constant[OF inv]
  have co: "conn (edges ?F) = component g fg" by (rule conn_edges)
  have "((\<exists>z\<in>sinks e m ?F. (x, z) \<in> component g fg) \<longrightarrow> mask_run st' x = 1) \<and>
        (whole_domain g \<longrightarrow> mask_run st' x = 1 \<longrightarrow>
           (\<exists>z\<in>sinks e m ?F. (x, z) \<in> component g fg)) \<and>
        1 \<le> mask_run st' x \<and>
        (\<forall>y\<in>?F. mask_run st' x \<noteq> 1 \<longrightarrow>
            (mask_run st' y = mask_run st' x \<longleftrightarrow> (x, y) \<in> component g fg))"
    if x: "x \<in> ?F" for x
  proof (intro conjI ballI impI)
    assume "\<exists>z\<in>sinks e m ?F. (x, z) \<in> component g fg"
    then obtain z where z: "z \<in> sinks e m ?F" "(x, z) \<in> conn (edges ?F)" unfolding co by blast
    from cst[OF z(2)] i(4)[OF z(1)] l[OF x] show "mask_run st' x = 1" by simp
  next
    assume "mask_run st' x = 1"
    with l[OF x] have "lab st1 x = 1" by simp
    from i(6)[OF x this] show "\<exists>z\<in>sinks e m ?F. (x, z) \<in> component g fg" unfolding co .
  next
    from x have "x \<in> fgset fg (points g)" by (simp add: fg_cells_fgset)
    from geomD_fg(1,2)[OF G this] have b: "2 \<le> mask_run st1 x" "mask_run st1 x \<le> run_number st1" .
    then have "0 \<le> mask_run st1 x" "1 \<le> mask_run st1 x" by simp_all
    from root_downward(4)[OF d this(1) b(2) this(2)] l[OF x] show "1 \<le> mask_run st' x"
      by (simp add: lab_def)
  next
    fix y assume y: "y \<in> ?F" and n1: "mask_run st' x \<noteq> 1"
    show "mask_run st' y = mask_run st' x \<longleftrightarrow> (x, y) \<in> component g fg"
    proof
      assume "mask_run st' y = mask_run st' x"
      with l[OF x] l[OF y] n1 have "lab st1 x = lab st1 y" "lab st1 x \<noteq> 1" by simp_all
      from i(5)[OF x y this] show "(x, y) \<in> component g fg" unfolding co .
    next
      assume "(x, y) \<in> component g fg"
      then have "(x, y) \<in> conn (edges ?F)" unfolding co .
      from cst[OF this] l[OF x] l[OF y] show "mask_run st' y = mask_run st' x" by simp
    qed
  qed
  with c show ?thesis by blast
qed

theorem C1_witness:
  "mask_run (the (compute_runs SinkCC grid3 fg_hook no_sink (the (initial 4 sink_corner)))) (2, 2) = 1 \<and>
   (\<exists>z\<in>sinks SinkCC sink_corner (fg_cells grid3 fg_hook). ((2, 2), z) \<in> component grid3 fg_hook)"
proof -
  let ?st = "the (compute_runs SinkCC grid3 fg_hook no_sink (the (initial 4 sink_corner)))"
  have p: "prepared grid3 fg_hook sink_corner"
    by (auto simp: prepared_def sink_corner_def no_sink_def fg_hook_def)
  have i: "initial 4 sink_corner = Some (the (initial 4 sink_corner))"
    by (rule the_Some) code_simp
  have s: "(3::nat) \<le> 4" by simp
  have w: "whole_domain grid3" by code_simp
  have o: "owned grid3 (2, 2) \<and> fg_hook (fst (2, 2)) (snd (2, 2))" by code_simp
  then have f: "(2, 2) \<in> fg_cells grid3 fg_hook" by (simp add: fg_cells_def)
  have one: "mask_run ?st (2, 2) = 1" by code_simp
  from C1_labels_of_one_tile[OF p i s, of SinkCC no_sink] obtain st' where
    c: "compute_runs SinkCC grid3 fg_hook no_sink (the (initial 4 sink_corner)) = Some st'"
    and a: "\<forall>c\<in>fg_cells grid3 fg_hook.
        (whole_domain grid3 \<longrightarrow> mask_run st' c = 1 \<longrightarrow>
           (\<exists>z\<in>sinks SinkCC sink_corner (fg_cells grid3 fg_hook). (c, z) \<in> component grid3 fg_hook))"
    by blast
  from c have "st' = ?st" by simp
  with a f one w show ?thesis by blast
qed

text \<open>
  Claim C1 as stated fails. The labels are run indices of one process: on the domain of
  four cells in a row whose two end cells are foreground and not connected, split between
  two processes,
  the western process labels \<open>(0, 0)\<close> with 2 and the eastern process labels \<open>(3, 0)\<close>
  with 2, two components with one label. And on a single tile a positive value left at the
  background cell \<open>(2, 0)\<close> makes the scan continue the run of \<open>(0, 0)\<close> at \<open>(3, 0)\<close>, again
  two components with the label 2.
\<close>

theorem C1_counterexample:
  "((0, 0), (3, 0)) \<notin> component grid_row4 fg_ends \<and> fg_ends 0 0 \<and> fg_ends 3 0 \<and>
   label_at (compute_runs SinkCC grid_west fg_ends no_sink (the (initial 4 no_sink))) (0, 0) = Some 2 \<and>
   label_at (compute_runs SinkCC grid_east fg_ends no_sink (the (initial 4 no_sink))) (3, 0) = Some 2 \<and>
   label_at (compute_runs SinkCC grid_row4 fg_ends no_sink (the (initial 4 stale_five))) (0, 0) = Some 2 \<and>
   label_at (compute_runs SinkCC grid_row4 fg_ends no_sink (the (initial 4 stale_five))) (3, 0) = Some 2"
proof -
  have "((0, 0), (3, 0)) \<notin> component grid_row4 fg_ends"
  proof
    assume "((0, 0), (3, 0)) \<in> component grid_row4 fg_ends"
    then have "((0 :: int, 0 :: int), (3 :: int, 0 :: int)) \<in>
        {(c, d). c \<in> fg_cells grid_row4 fg_ends \<and> d \<in> fg_cells grid_row4 fg_ends \<and>
                 adjacent c d}\<^sup>*"
      by (simp add: component_def)
    then show False
    proof (cases rule: converse_rtranclE)
      case base
      then show False by simp
    next
      case (step y)
      then have "fg_ends (fst y) (snd y)" "adjacent (0, 0) y" by (auto simp: fg_cells_def)
      then show False by (cases y) (auto simp: fg_ends_def adjacent_def)
    qed
  qed
  moreover have "fg_ends 0 0 \<and> fg_ends 3 0 \<and>
   label_at (compute_runs SinkCC grid_west fg_ends no_sink (the (initial 4 no_sink))) (0, 0) = Some 2 \<and>
   label_at (compute_runs SinkCC grid_east fg_ends no_sink (the (initial 4 no_sink))) (3, 0) = Some 2 \<and>
   label_at (compute_runs SinkCC grid_row4 fg_ends no_sink (the (initial 4 stale_five))) (0, 0) = Some 2 \<and>
   label_at (compute_runs SinkCC grid_row4 fg_ends no_sink (the (initial 4 stale_five))) (3, 0) = Some 2"
    by code_simp
  ultimately show ?thesis by blast
qed

end
